theory Spec2Isabelle
  imports Complex_Main "HOL-Library.AList"
begin

section \<open>JSON values and JavaScript objects\<close>

text \<open>
  Every document of the program (room state, presence, event payloads) is a value that
  came out of \<^verbatim>\<open>JSON.parse\<close>. A JavaScript object is modelled by the list of its own
  enumerable properties, each key once, in the order in which \<^verbatim>\<open>Object.keys\<close> lists
  them. \<^verbatim>\<open>JSON.parse\<close> makes every key of the text an own data property, the key
  \<^verbatim>\<open>__proto__\<close> included. On such a list, reading an own property is
  \<^term>\<open>map_of x k\<close>, writing one is \<^term>\<open>AList.update k v x\<close> (an existing key keeps
  its place, a new one goes last) and \<^verbatim>\<open>delete x[k]\<close> is \<^term>\<open>AList.delete k x\<close>.
  The order of a list is the order in which a loop visits the properties and nothing more.
  Numbers are payload only: the program never computes with them.
\<close>

datatype json =
    JNull
  | JBool bool
  | JNum rat
  | JStr string
  | JArr "json list"
  | JObj "(string \<times> json) list"

type_synonym obj = "(string \<times> json) list"

text \<open>The shape of a value built by \<^verbatim>\<open>JSON.parse\<close>: no object has a key twice.\<close>

fun wf_json :: "json \<Rightarrow> bool" where
  "wf_json (JObj kvs) = (distinct (map fst kvs) \<and> list_all (\<lambda>(k, v). wf_json v) kvs)"
| "wf_json (JArr xs) = list_all wf_json xs"
| "wf_json _ = True"

text \<open>JavaScript truthiness of a JSON value, as used by \<^verbatim>\<open>echo ? [] : [sender.id]\<close>.\<close>

fun truthy :: "json \<Rightarrow> bool" where
  "truthy JNull = False"
| "truthy (JBool b) = b"
| "truthy (JNum n) = (n \<noteq> 0)"
| "truthy (JStr s) = (s \<noteq> [])"
| "truthy (JArr xs) = True"
| "truthy (JObj kvs) = True"

section \<open>MergeEngine: \<^verbatim>\<open>src/shared/deep-merge.ts\<close>\<close>

text \<open>
  The function reads and writes \<^verbatim>\<open>result[key]\<close>, and these two go through the prototype
  chain of \<open>result\<close>. The copy \<^verbatim>\<open>{ ...target }\<close> is a new object whose prototype is
  \<^verbatim>\<open>Object.prototype\<close>, and the one property of \<^verbatim>\<open>Object.prototype\<close> that is not a
  function is the accessor \<^verbatim>\<open>__proto__\<close>: its getter returns the prototype of the object
  it is read on, its setter replaces that prototype when the value assigned is an object or
  an array and does nothing for a primitive (a null never reaches the assignment: it takes
  the \<^verbatim>\<open>delete\<close> branch). So an assignment to
  \<^verbatim>\<open>result["__proto__"]\<close> can put an object or an array of the source under \<open>result\<close>, and
  later reads of \<^verbatim>\<open>result[key]\<close> find the properties of that prototype.

  A prototype is \<^verbatim>\<open>Object.prototype\<close>, a plain object (its own properties and its own
  prototype) or an array. The function properties of \<^verbatim>\<open>Object.prototype\<close> and
  \<^verbatim>\<open>Array.prototype\<close> are left out: a function is not of type \<^verbatim>\<open>"object"\<close>, and an
  assignment to a key that is inherited as a writable data property creates an own
  property, so they behave as absent keys do.
\<close>

datatype proto = ObjectPrototype | ProtoObject obj proto | ProtoArray "json list"

text \<open>What a lookup along the chain finds: a data property, the accessor, or nothing.\<close>

datatype 'v found = Data 'v | Accessor | Absent

text \<open>
  The own properties of an array: the elements under their indices (a canonical decimal
  numeral: digits only, no leading zero) and \<^verbatim>\<open>length\<close>.
\<close>

definition array_index :: "string \<Rightarrow> nat option" where
  "array_index key =
     (if key \<noteq> [] \<and> list_all (\<lambda>c. c \<in> set ''0123456789'') key
         \<and> (key = ''0'' \<or> hd key \<noteq> CHR ''0'')
      then Some (foldl (\<lambda>n c. 10 * n + (of_char c - 48)) 0 key)
      else None)"

definition array_own :: "json list \<Rightarrow> string \<Rightarrow> json option" where
  "array_own xs key =
     (case array_index key of
        Some i \<Rightarrow> if i < length xs then Some (xs ! i) else None
      | None \<Rightarrow> if key = ''length'' then Some (JNum (of_nat (length xs))) else None)"

fun chain_get :: "proto \<Rightarrow> string \<Rightarrow> json found" where
  "chain_get ObjectPrototype key = (if key = ''__proto__'' then Accessor else Absent)"
| "chain_get (ProtoObject own p) key =
     (case map_of own key of Some v \<Rightarrow> Data v | None \<Rightarrow> chain_get p key)"
| "chain_get (ProtoArray xs) key =
     (case array_own xs key of
        Some v \<Rightarrow> Data v
      | None \<Rightarrow> if key = ''__proto__'' then Accessor else Absent)"

text \<open>
  \<open>result\<close> is the list of its own properties together with its prototype \<open>p\<close>.
  \<open>get_result\<close> is the lookup that both \<^verbatim>\<open>result[key]\<close> and \<^verbatim>\<open>result[key] = v\<close> begin
  with. \<open>plain_object\<close> is the test
  \<^verbatim>\<open>typeof result[key] === "object" && !Array.isArray(result[key]) && result[key] !== null\<close>:
  it gives the own enumerable properties of the object that \<^verbatim>\<open>result[key]\<close> is, which
  are what the recursive call copies. Read through the accessor, \<^verbatim>\<open>result[key]\<close> is the
  prototype of \<open>result\<close> itself; \<^verbatim>\<open>Object.prototype\<close> has no enumerable property.
  \<open>set_result\<close> is \<^verbatim>\<open>result[key] = v\<close>, where \<open>vp\<close> is the prototype of \<open>v\<close> when \<open>v\<close> is
  an object: through the accessor it replaces the prototype of \<open>result\<close> and stores no
  property; everywhere else it writes an own property.
\<close>

definition get_result :: "obj \<Rightarrow> proto \<Rightarrow> string \<Rightarrow> json found" where
  "get_result result p key =
     (case map_of result key of Some v \<Rightarrow> Data v | None \<Rightarrow> chain_get p key)"

definition plain_object :: "obj \<Rightarrow> proto \<Rightarrow> string \<Rightarrow> obj option" where
  "plain_object result p key =
     (case get_result result p key of
        Data (JObj t) \<Rightarrow> Some t
      | Data v \<Rightarrow> None
      | Accessor \<Rightarrow>
          (case p of
             ObjectPrototype \<Rightarrow> Some []
           | ProtoObject own pp \<Rightarrow> Some own
           | ProtoArray xs \<Rightarrow> None)
      | Absent \<Rightarrow> None)"

definition set_result :: "obj \<Rightarrow> proto \<Rightarrow> string \<Rightarrow> json \<Rightarrow> proto \<Rightarrow> obj \<times> proto" where
  "set_result result p key v vp =
     (if get_result result p key = Accessor then
        (result,
         case v of JObj own \<Rightarrow> ProtoObject own vp | JArr xs \<Rightarrow> ProtoArray xs | _ \<Rightarrow> p)
      else (AList.update key v result, p))"

text \<open>
  \<^verbatim>\<open>deepMerge(target, source)\<close>: \<open>result\<close> starts as the copy \<^verbatim>\<open>{ ...target }\<close> and
  the loop runs over the entries of \<open>source\<close>, which \<^verbatim>\<open>JSON.parse\<close> built, so that
  \<^verbatim>\<open>source[key]\<close> is the own property. \<open>deepMerge_loop result p rest\<close> is the loop with the
  current \<open>result\<close>, its prototype and the entries still to visit. The three branches are
  the three branches of the source: \<^verbatim>\<open>source[key] === null\<close>; both \<^verbatim>\<open>source[key]\<close> and
  \<^verbatim>\<open>result[key]\<close> of type object, not arrays, \<^verbatim>\<open>result[key]\<close> not null; otherwise.
  \<open>deepMerge_result\<close> is the object returned, with its prototype. An object of the source
  that is stored as it is has the prototype \<^verbatim>\<open>Object.prototype\<close>.
\<close>

fun deepMerge_result :: "obj \<Rightarrow> obj \<Rightarrow> obj \<times> proto"
and deepMerge_loop :: "obj \<Rightarrow> proto \<Rightarrow> obj \<Rightarrow> obj \<times> proto" where
  "deepMerge_result target source = deepMerge_loop target ObjectPrototype source"
| "deepMerge_loop result p [] = (result, p)"
| "deepMerge_loop result p ((key, v) # rest) =
     (case v of
        JNull \<Rightarrow> deepMerge_loop (AList.delete key result) p rest
      | JObj s \<Rightarrow>
          (case plain_object result p key of
             Some t \<Rightarrow>
               (case deepMerge_result t s of
                  (merged, mp) \<Rightarrow>
                    (case set_result result p key (JObj merged) mp of
                       (result', p') \<Rightarrow> deepMerge_loop result' p' rest))
           | None \<Rightarrow>
               (case set_result result p key v ObjectPrototype of
                  (result', p') \<Rightarrow> deepMerge_loop result' p' rest))
      | _ \<Rightarrow>
          (case set_result result p key v ObjectPrototype of
             (result', p') \<Rightarrow> deepMerge_loop result' p' rest))"

text \<open>
  What the callers see of the returned object: they serialise it with
  \<^verbatim>\<open>JSON.stringify\<close> and pass it as the next \<open>target\<close>, which is copied by
  \<^verbatim>\<open>{ ...target }\<close>; both look at the own enumerable properties only. The recursion is as
  deep as the source is nested, and the call stack is taken to be deep enough for it; the
  model on a store, further down, carries the bound.
\<close>

definition deepMerge :: "obj \<Rightarrow> obj \<Rightarrow> obj" where
  "deepMerge target source = fst (deepMerge_result target source)"

text \<open>
  The reference definition, written from section 4.1 of the specification and not from
  the code: for each key of \<open>source\<close>, a delete sentinel removes the key from the result;
  else, if the existing value at that key \<^emph>\<open>in target\<close> and the new value are both
  mappings, they are merged recursively; else the new value is stored verbatim.
\<close>

fun merge_spec :: "obj \<Rightarrow> obj \<Rightarrow> obj"
and merge_spec_each :: "obj \<Rightarrow> obj \<Rightarrow> obj \<Rightarrow> obj" where
  "merge_spec target source = merge_spec_each target target source"
| "merge_spec_each target result [] = result"
| "merge_spec_each target result ((key, v) # rest) =
     merge_spec_each target
       (case v of
          JNull \<Rightarrow> AList.delete key result
        | JObj s \<Rightarrow>
            (case map_of target key of
               Some (JObj t) \<Rightarrow> AList.update key (JObj (merge_spec t s)) result
             | _ \<Rightarrow> AList.update key v result)
        | _ \<Rightarrow> AList.update key v result)
       rest"

text \<open>A value in which no object, at any depth, has the key \<^verbatim>\<open>__proto__\<close>.\<close>

fun no_proto_key :: "json \<Rightarrow> bool" where
  "no_proto_key (JObj kvs) = list_all (\<lambda>(k, v). k \<noteq> ''__proto__'' \<and> no_proto_key v) kvs"
| "no_proto_key (JArr xs) = list_all no_proto_key xs"
| "no_proto_key _ = True"

section \<open>Protocol: \<^verbatim>\<open>src/shared/protocol.ts\<close>\<close>

record PeerInfo =
  username :: string
  avatarUrl :: string

datatype ClientToServerMessage =
    UpdatePresence obj
  | UpdateRoomState obj
  | RequestPresenceUpdate string obj
  | BroadcastEvent obj

datatype ServerToClientMessage =
    Init string obj "(string \<times> obj) list" "(string \<times> PeerInfo) list"
  | PresenceUpdated string obj
  | RoomStateUpdated obj
  | PresenceUpdateRequest obj string
  | PeerJoined string string string
  | PeerLeft string
  | Event obj

text \<open>
  What a handler sees of a text frame: \<^verbatim>\<open>JSON.parse\<close> threw (\<open>Malformed\<close>), the
  parsed value has a \<^verbatim>\<open>type\<close> that no \<^verbatim>\<open>case\<close> of the \<^verbatim>\<open>switch\<close> matches
  (\<open>UnknownKind\<close>), or it is a message of the declared union.
\<close>

datatype 'm frame = Malformed | UnknownKind | Msg 'm

section \<open>Relay: the \<^verbatim>\<open>WebsimServer\<close> class\<close>

text \<open>
  The three private fields of the server. \<open>peers\<close> is a JavaScript \<^verbatim>\<open>Map\<close>,
  \<open>presence\<close> an object keyed by connection id; both are kept in insertion order.
\<close>

record relay =
  peers :: "(string \<times> PeerInfo) list"
  presence :: "(string \<times> obj) list"
  roomState :: obj

definition new_WebsimServer :: relay where
  "new_WebsimServer = \<lparr>peers = [], presence = [], roomState = []\<rparr>"

text \<open>
  \<^verbatim>\<open>this.room.getConnections()\<close> belongs to the transport: every handler takes the ids
  of the room's current connections as the parameter \<open>conns\<close>. A handler returns the new
  state and the frames it sent, each with the id of the connection it was sent to.
\<close>

definition send :: "string \<Rightarrow> ServerToClientMessage \<Rightarrow> (string \<times> ServerToClientMessage) list" where
  "send conn msg = [(conn, msg)]"

definition broadcast ::
  "string list \<Rightarrow> ServerToClientMessage \<Rightarrow> string list \<Rightarrow> (string \<times> ServerToClientMessage) list" where
  "broadcast conns msg exclude = map (\<lambda>c. (c, msg)) (filter (\<lambda>c. c \<notin> set exclude) conns)"

definition getConnection :: "string list \<Rightarrow> string \<Rightarrow> string option" where
  "getConnection conns ident = find (\<lambda>c. c = ident) conns"


text \<open>\<^verbatim>\<open>this.presence[id] || {}\<close>: an object is truthy, so only a missing entry falls back.\<close>

definition presence_or_empty :: "(string \<times> obj) list \<Rightarrow> string \<Rightarrow> obj" where
  "presence_or_empty pres ident = (case map_of pres ident of None \<Rightarrow> [] | Some p \<Rightarrow> p)"


text \<open>
  The \<^verbatim>\<open>broadcast-event\<close> case. The destructuring
  \<^verbatim>\<open>const { echo = true, type: eventType, ...rest } = msg.event\<close> gives \<open>echo\<close> its default
  only when the field is absent, and \<open>rest\<close> is the event without its \<open>echo\<close> and \<open>type\<close>
  properties. The object literal lists \<open>type\<close>, \<open>clientId\<close>, \<open>username\<close> and then spreads
  \<open>rest\<close>; an absent \<open>type\<close> is an undefined property, which \<^verbatim>\<open>JSON.stringify\<close> leaves
  out of the frame.
\<close>

definition event_echo :: "obj \<Rightarrow> json" where
  "event_echo event = (case map_of event ''echo'' of None \<Rightarrow> JBool True | Some e \<Rightarrow> e)"

definition event_rest :: "obj \<Rightarrow> obj" where
  "event_rest event = filter (\<lambda>(k, v). k \<noteq> ''echo'' \<and> k \<noteq> ''type'') event"

definition eventData :: "string \<Rightarrow> PeerInfo \<Rightarrow> obj \<Rightarrow> obj" where
  "eventData sender senderInfo event =
     fold (\<lambda>(k, v). AList.update k v) (event_rest event)
       ((case map_of event ''type'' of None \<Rightarrow> [] | Some t \<Rightarrow> [(''type'', t)])
        @ [(''clientId'', JStr sender), (''username'', JStr (username senderInfo))])"

text \<open>
  \<open>onMessage\<close>: a frame that does not parse is dropped; then a sender without an entry in
  \<open>peers\<close> is dropped; then the \<^verbatim>\<open>switch\<close> on the kind, where an unknown kind matches no
  case.
\<close>

definition onMessage ::
  "relay \<Rightarrow> string list \<Rightarrow> string \<Rightarrow> ClientToServerMessage frame
     \<Rightarrow> relay \<times> (string \<times> ServerToClientMessage) list" where
  "onMessage st conns sender message =
     (case message of
        Malformed \<Rightarrow> (st, [])
      | UnknownKind \<Rightarrow> (st, [])
      | Msg msg \<Rightarrow>
          (case map_of (peers st) sender of
             None \<Rightarrow> (st, [])
           | Some senderInfo \<Rightarrow>
               (case msg of
                  UpdatePresence p \<Rightarrow>
                    (let merged = deepMerge (presence_or_empty (presence st) sender) p;
                         st' = st\<lparr>presence := AList.update sender merged (presence st)\<rparr>
                     in (st', broadcast conns (PresenceUpdated sender merged) []))
                | UpdateRoomState rs \<Rightarrow>
                    (let st' = st\<lparr>roomState := deepMerge (roomState st) rs\<rparr>
                     in (st', broadcast conns (RoomStateUpdated (roomState st')) []))
                | RequestPresenceUpdate targetClientId upd \<Rightarrow>
                    (case getConnection conns targetClientId of
                       Some targetConn \<Rightarrow> (st, send targetConn (PresenceUpdateRequest upd sender))
                     | None \<Rightarrow> (st, []))
                | BroadcastEvent event \<Rightarrow>
                    (let exclude = (if truthy (event_echo event) then [] else [sender])
                     in (st, broadcast conns (Event (eventData sender senderInfo event)) exclude)))))"

definition onClose ::
  "relay \<Rightarrow> string list \<Rightarrow> string \<Rightarrow> relay \<times> (string \<times> ServerToClientMessage) list" where
  "onClose st conns conn =
     (case map_of (peers st) conn of
        None \<Rightarrow> (st, [])
      | Some peerInfo \<Rightarrow>
          (st\<lparr>peers := AList.delete conn (peers st),
              presence := AList.delete conn (presence st)\<rparr>,
           broadcast conns (PeerLeft conn) []))"

text \<open>
  A run of \<^verbatim>\<open>update-presence\<close> frames from one connection, handled one at a time in
  arrival order; each comes with the connections of the room at that moment.
\<close>

definition process_presence_updates :: "relay \<Rightarrow> string \<Rightarrow> (string list \<times> obj) list \<Rightarrow> relay" where
  "process_presence_updates st sender ms =
     foldl (\<lambda>s (conns, p). fst (onMessage s conns sender (Msg (UpdatePresence p)))) st ms"

section \<open>Replica: the \<^verbatim>\<open>WebsimSocket\<close> class\<close>

text \<open>
  The socket is \<^verbatim>\<open>null\<close> or a connection in one of the four WebSocket ready states.
  Subscriber callbacks and the \<^verbatim>\<open>onmessage\<close> handler are code of the caller: a callback is
  a name, and calling it is recorded, with its arguments, in the list of effects that every
  operation returns next to the new state.
\<close>

datatype readyState = CONNECTING | OPEN | CLOSING | CLOSED

type_synonym callback = nat

datatype effect =
    PresenceCallback callback "(string \<times> obj) list"
  | RoomStateCallback callback obj
  | PresenceUpdateRequestCallback callback obj string
  | OnMessage callback obj
  | SocketSend ClientToServerMessage
  | ClearTimeout
  | Resolve
  | ThrowTypeError

record replica =
  c_presence :: "(string \<times> obj) list"
  c_roomState :: obj
  c_peers :: "(string \<times> PeerInfo) list"
  c_clientId :: string
  socket :: "readyState option"
  presenceSubscribers :: "callback list"
  roomStateSubscribers :: "callback list"
  presenceUpdateRequestSubscribers :: "callback list"
  onmessage :: "callback option"

text \<open>The field initialisers of the class (\<open>c_presence\<close> is \<^verbatim>\<open>_presence\<close>, and so on).\<close>

definition new_WebsimSocket :: replica where
  "new_WebsimSocket =
     \<lparr>c_presence = [], c_roomState = [], c_peers = [], c_clientId = '''',
      socket = None, presenceSubscribers = [], roomStateSubscribers = [],
      presenceUpdateRequestSubscribers = [], onmessage = None\<rparr>"

definition sendToServer :: "replica \<Rightarrow> ClientToServerMessage \<Rightarrow> effect list" where
  "sendToServer st msg = (if socket st = Some OPEN then [SocketSend msg] else [])"

definition updatePresence :: "replica \<Rightarrow> obj \<Rightarrow> replica \<times> effect list" where
  "updatePresence st p =
     (st\<lparr>c_presence :=
           AList.update (c_clientId st)
             (deepMerge (presence_or_empty (c_presence st) (c_clientId st)) p)
             (c_presence st)\<rparr>,
      sendToServer st (UpdatePresence p))"

definition updateRoomState :: "replica \<Rightarrow> obj \<Rightarrow> replica \<times> effect list" where
  "updateRoomState st rs = (st, sendToServer st (UpdateRoomState rs))"

definition requestPresenceUpdate :: "replica \<Rightarrow> string \<Rightarrow> obj \<Rightarrow> replica \<times> effect list" where
  "requestPresenceUpdate st clientId upd =
     (st, sendToServer st (RequestPresenceUpdate clientId upd))"

text \<open>\<open>send_event\<close> is the method \<^verbatim>\<open>send\<close> of the class.\<close>

definition send_event :: "replica \<Rightarrow> obj \<Rightarrow> replica \<times> effect list" where
  "send_event st event = (st, sendToServer st (BroadcastEvent event))"





section \<open>MergeEngine on a store of objects\<close>

text \<open>
  Whether \<^verbatim>\<open>deepMerge\<close> writes into its arguments cannot be seen on values, so the
  same function is modelled once more on an explicit store. The store is the list of all
  objects and arrays, an address is an index into it, and \<^verbatim>\<open>{ ...target }\<close> allocates by
  appending a copy of the own properties, with the prototype \<^verbatim>\<open>Object.prototype\<close>. A
  property holds a primitive, a reference to an array or a reference to a plain object. An
  object of the store is the list of its own properties together with its prototype, which
  is \<^verbatim>\<open>Object.prototype\<close>, null, or a reference to an object or an array of the store.
  For an array the own properties are the elements under their indices and \<^verbatim>\<open>length\<close>;
  \<^verbatim>\<open>Array.prototype\<close>, which stands between an array and \<^verbatim>\<open>Object.prototype\<close>, adds only
  functions and a \<^verbatim>\<open>length\<close> that every array shadows, so the prototype of an array is given
  as \<^verbatim>\<open>Object.prototype\<close>. \<open>depth\<close> is the number of nested calls the call stack still
  allows; exhausting it is the result \<open>None\<close>, as is a target or a source that is not in the
  store.
\<close>

type_synonym addr = nat

datatype hval =
    HUndefined
  | HNull
  | HBool bool
  | HNum rat
  | HStr string
  | HArr addr
  | HObj addr
  | HObjectPrototype

type_synonym hobj = "(string \<times> hval) list"
type_synonym heap = "(hobj \<times> hval) list"

text \<open>The own properties of the object at an address, and the two ways of writing to it.\<close>

definition own :: "heap \<Rightarrow> addr \<Rightarrow> hobj" where
  "own h a = fst (h ! a)"

definition put_own :: "heap \<Rightarrow> addr \<Rightarrow> hobj \<Rightarrow> heap" where
  "put_own h a ob = h[a := (ob, snd (h ! a))]"

definition put_proto :: "heap \<Rightarrow> addr \<Rightarrow> hval \<Rightarrow> heap" where
  "put_proto h a p = h[a := (fst (h ! a), p)]"

text \<open>Reading an own property; a missing one reads as \<^verbatim>\<open>undefined\<close>.\<close>

definition get_prop :: "hobj \<Rightarrow> string \<Rightarrow> hval" where
  "get_prop ob key = (case map_of ob key of None \<Rightarrow> HUndefined | Some v \<Rightarrow> v)"

text \<open>
  The lookup along the prototype chain that starts at the value \<open>v\<close>. A chain of the
  runtime has no cycle, so it ends within as many steps as the store has objects; \<open>n\<close>
  counts them.
\<close>

fun lookup :: "nat \<Rightarrow> heap \<Rightarrow> hval \<Rightarrow> string \<Rightarrow> hval found" where
  "lookup n h HObjectPrototype key = (if key = ''__proto__'' then Accessor else Absent)"
| "lookup (Suc n) h (HObj a) key =
     (if a < length h then
        (case map_of (own h a) key of
           Some v \<Rightarrow> Data v
         | None \<Rightarrow> lookup n h (snd (h ! a)) key)
      else Absent)"
| "lookup (Suc n) h (HArr a) key =
     (if a < length h then
        (case map_of (own h a) key of
           Some v \<Rightarrow> Data v
         | None \<Rightarrow> lookup n h (snd (h ! a)) key)
      else Absent)"
| "lookup n h v key = Absent"

text \<open>
  \<^verbatim>\<open>result[key]\<close> and \<^verbatim>\<open>result[key] = v\<close> for the object at \<open>result\<close>. The getter of the
  accessor returns the prototype of \<open>result\<close>; its setter replaces that prototype when \<open>v\<close>
  is an object or an array, and does nothing otherwise. Any other assignment writes an own
  property of \<open>result\<close>.
\<close>

definition get_resultH :: "heap \<Rightarrow> addr \<Rightarrow> string \<Rightarrow> hval" where
  "get_resultH h result key =
     (case lookup (length h) h (HObj result) key of
        Data v \<Rightarrow> v
      | Accessor \<Rightarrow> snd (h ! result)
      | Absent \<Rightarrow> HUndefined)"

definition set_resultH :: "heap \<Rightarrow> addr \<Rightarrow> string \<Rightarrow> hval \<Rightarrow> heap" where
  "set_resultH h result key v =
     (case lookup (length h) h (HObj result) key of
        Accessor \<Rightarrow>
          (case v of
             HObj a \<Rightarrow> put_proto h result v
           | HArr a \<Rightarrow> put_proto h result v
           | _ \<Rightarrow> h)
      | _ \<Rightarrow> put_own h result (AList.update key v (own h result)))"

text \<open>
  \<^verbatim>\<open>typeof v === "object" && !Array.isArray(v) && v !== null\<close>, and the own enumerable
  properties that \<^verbatim>\<open>{ ...target }\<close> copies (\<^verbatim>\<open>Object.prototype\<close> has none).
\<close>

fun plain_objectH :: "hval \<Rightarrow> bool" where
  "plain_objectH (HObj a) = True"
| "plain_objectH HObjectPrototype = True"
| "plain_objectH v = False"

definition spread :: "heap \<Rightarrow> hval \<Rightarrow> hobj option" where
  "spread h target =
     (case target of
        HObj a \<Rightarrow> if a < length h then Some (own h a) else None
      | HObjectPrototype \<Rightarrow> Some []
      | _ \<Rightarrow> None)"

text \<open>
  \<open>deepMergeH depth h target source\<close> is \<^verbatim>\<open>deepMerge(target, source)\<close> on the store \<open>h\<close>:
  it returns the store after the call and the address of \<open>result\<close>. \<open>deepMergeH_loop\<close> is
  the \<^verbatim>\<open>for\<close> loop over \<^verbatim>\<open>Object.keys(source)\<close>; it reads the own property
  \<^verbatim>\<open>source[key]\<close> and, along the chain, \<^verbatim>\<open>result[key]\<close> from the current store, and it
  writes to the object at \<open>result\<close> only.
\<close>

fun deepMergeH :: "nat \<Rightarrow> heap \<Rightarrow> hval \<Rightarrow> addr \<Rightarrow> (heap \<times> addr) option"
and deepMergeH_loop :: "nat \<Rightarrow> heap \<Rightarrow> addr \<Rightarrow> addr \<Rightarrow> string list \<Rightarrow> heap option" where
  "deepMergeH depth h target source =
     (case spread h target of
        None \<Rightarrow> None
      | Some copy \<Rightarrow>
          if source < length h then
            (case deepMergeH_loop depth (h @ [(copy, HObjectPrototype)]) (length h) source
                    (map fst (own h source)) of
               None \<Rightarrow> None
             | Some h' \<Rightarrow> Some (h', length h))
          else None)"
| "deepMergeH_loop depth h result source [] = Some h"
| "deepMergeH_loop depth h result source (key # keys) =
     (case get_prop (own h source) key of
        HNull \<Rightarrow>
          deepMergeH_loop depth (put_own h result (AList.delete key (own h result)))
            result source keys
      | HObj s \<Rightarrow>
          if plain_objectH (get_resultH h result key) then
            (case depth of
               0 \<Rightarrow> None
             | Suc d \<Rightarrow>
                 (case deepMergeH d h (get_resultH h result key) s of
                    None \<Rightarrow> None
                  | Some (h', r) \<Rightarrow>
                      deepMergeH_loop depth (set_resultH h' result key (HObj r))
                        result source keys))
          else deepMergeH_loop depth (set_resultH h result key (HObj s)) result source keys
      | v \<Rightarrow> deepMergeH_loop depth (set_resultH h result key v) result source keys)"

text \<open>
  \<open>objects_along h a path\<close> follows \<open>path\<close>, key by key, from the object at \<open>a\<close> through
  own properties that hold plain objects, and lists the addresses it passes, \<open>a\<close> first.
\<close>

fun objects_along :: "heap \<Rightarrow> addr \<Rightarrow> string list \<Rightarrow> addr list option" where
  "objects_along h a [] = (if a < length h then Some [a] else None)"
| "objects_along h a (key # path) =
     (if a < length h then
        (case get_prop (own h a) key of
           HObj b \<Rightarrow> map_option ((#) a) (objects_along h b path)
         | _ \<Rightarrow> None)
      else None)"

text \<open>
  A store as the runtime keeps it: no object has a key twice, and every reference to a plain
  object points into the store.
\<close>

fun ref_ok :: "nat \<Rightarrow> hval \<Rightarrow> bool" where
  "ref_ok n (HObj b) = (b < n)"
| "ref_ok n v = True"

definition wf_heap :: "heap \<Rightarrow> bool" where
  "wf_heap h =
     list_all (\<lambda>c. distinct (map fst (fst c)) \<and> list_all (\<lambda>(k, v). ref_ok (length h) v) (fst c)) h"

text \<open>
  The JSON value that a store holds at a property value, read as \<^verbatim>\<open>JSON.stringify\<close> reads
  it, through own properties: the link between the store and the values of the first
  model. \<open>arrs\<close> gives the contents of the arrays as JSON; \<open>n\<close> bounds how deep plain
  objects are followed.
\<close>

fun json_of :: "(addr \<Rightarrow> json list) \<Rightarrow> nat \<Rightarrow> heap \<Rightarrow> hval \<Rightarrow> json option"
and props_of :: "(addr \<Rightarrow> json list) \<Rightarrow> nat \<Rightarrow> heap \<Rightarrow> hobj \<Rightarrow> obj option" where
  "json_of arrs n h HUndefined = None"
| "json_of arrs n h HObjectPrototype = None"
| "json_of arrs n h HNull = Some JNull"
| "json_of arrs n h (HBool b) = Some (JBool b)"
| "json_of arrs n h (HNum x) = Some (JNum x)"
| "json_of arrs n h (HStr s) = Some (JStr s)"
| "json_of arrs n h (HArr a) = Some (JArr (arrs a))"
| "json_of arrs 0 h (HObj a) = None"
| "json_of arrs (Suc n) h (HObj a) =
     (if a < length h then map_option JObj (props_of arrs n h (own h a)) else None)"
| "props_of arrs n h [] = Some []"
| "props_of arrs n h ((k, v) # ps) =
     (case json_of arrs n h v of
        None \<Rightarrow> None
      | Some j \<Rightarrow> map_option ((#) (k, j)) (props_of arrs n h ps))"

text \<open>
  The shape of the store while a call runs on a store that had \<open>L\<close> objects when it
  began: an old object refers to old objects only, a new one to old objects or to objects
  allocated after it.
\<close>

fun ref_up :: "nat \<Rightarrow> addr \<Rightarrow> hval \<Rightarrow> bool" where
  "ref_up L a (HObj b) = (b < L \<or> a < b)"
| "ref_up L a v = True"

definition layered :: "nat \<Rightarrow> heap \<Rightarrow> bool" where
  "layered L h =
     (\<forall>a < length h. \<forall>p \<in> set (own h a).
        (a < L \<longrightarrow> ref_ok L (snd p)) \<and> (L \<le> a \<longrightarrow> ref_up L a (snd p)))"

section \<open>Sample states\<close>

text \<open>A room with two registered connections, \<open>A\<close> and \<open>B\<close>.\<close>

definition room_AB :: relay where
  "room_AB =
     \<lparr>peers = [(''A'', \<lparr>username = ''alice'', avatarUrl = ''a.png''\<rparr>),
               (''B'', \<lparr>username = ''bob'', avatarUrl = ''b.png''\<rparr>)],
      presence = [(''A'', [(''x'', JNum 1)]), (''B'', [])],
      roomState = []\<rparr>"


text \<open>A store with a target at address 0 and a source at address 1.\<close>

definition store_AB :: heap where
  "store_AB =
     [ ([(''a'', HObj 2), (''z'', HObj 4)], HObjectPrototype),
       ([(''a'', HObj 3), (''n'', HNull)], HObjectPrototype),
       ([(''b'', HNum 1)], HObjectPrototype),
       ([(''c'', HNum 2)], HObjectPrototype),
       ([(''q'', HBool True)], HObjectPrototype) ]"

text \<open>The same store after \<^verbatim>\<open>deepMerge\<close> of the two: objects 5 and 6 are new.\<close>

definition store_AB_merged :: heap where
  "store_AB_merged =
     store_AB @ [ ([(''a'', HObj 6), (''z'', HObj 4)], HObjectPrototype),
                  ([(''b'', HNum 1), (''c'', HNum 2)], HObjectPrototype) ]"

text \<open>
  A store with an empty target at address 0, a source \<open>{k: {x: 1}}\<close> at address 1 and the
  object \<open>{x: 1}\<close> of the source at address 2; and the same store after \<^verbatim>\<open>deepMerge\<close> of
  the two, where object 3 is new.
\<close>

definition store_K :: heap where
  "store_K =
     [ ([], HObjectPrototype),
       ([(''k'', HObj 2)], HObjectPrototype),
       ([(''x'', HNum 1)], HObjectPrototype) ]"

definition store_K_merged :: heap where
  "store_K_merged = store_K @ [ ([(''k'', HObj 2)], HObjectPrototype) ]"

text \<open>
  A store with an empty target at address 0 and, at address 1, the source
  \<open>{"__proto__": {"a": {"x": 1}}, "a": {"y": 2}}\<close> as \<^verbatim>\<open>JSON.parse\<close> builds it; and the
  same store after \<^verbatim>\<open>deepMerge\<close> of the two. Object 5 is the result; its prototype is
  object 6, the merge of \<^verbatim>\<open>Object.prototype\<close> with the value under \<^verbatim>\<open>__proto__\<close>; object 7
  is the merge of the inherited \<open>{x: 1}\<close> with \<open>{y: 2}\<close>.
\<close>

definition store_P :: heap where
  "store_P =
     [ ([], HObjectPrototype),
       ([(''__proto__'', HObj 2), (''a'', HObj 4)], HObjectPrototype),
       ([(''a'', HObj 3)], HObjectPrototype),
       ([(''x'', HNum 1)], HObjectPrototype),
       ([(''y'', HNum 2)], HObjectPrototype) ]"

definition store_P_merged :: heap where
  "store_P_merged =
     store_P @ [ ([(''a'', HObj 7)], HObj 6),
                 ([(''a'', HObj 3)], HObjectPrototype),
                 ([(''x'', HNum 1), (''y'', HNum 2)], HObjectPrototype) ]"

section \<open>MergeEngine: results\<close>

text \<open>
  At a key other than \<^verbatim>\<open>__proto__\<close>, and while the prototype of \<open>result\<close> is
  \<^verbatim>\<open>Object.prototype\<close>, the loop body reads and writes own properties only.
\<close>

lemma deepMerge_loop_own:
  "key \<noteq> ''__proto__'' \<Longrightarrow>
   deepMerge_loop result ObjectPrototype ((key, v) # rest) =
     deepMerge_loop
       (case v of
          JNull \<Rightarrow> AList.delete key result
        | JObj s \<Rightarrow>
            (case map_of result key of
               Some (JObj t) \<Rightarrow> AList.update key (JObj (deepMerge t s)) result
             | _ \<Rightarrow> AList.update key v result)
        | _ \<Rightarrow> AList.update key v result)
       ObjectPrototype rest"
  by (simp add: plain_object_def set_result_def get_result_def deepMerge_def
      split: json.splits option.splits prod.splits)

lemma deepMerge_loop_refines:
  assumes nested: "\<And>k s t. (k, JObj s) \<in> set entries \<Longrightarrow> deepMerge t s = merge_spec t s"
    and d: "distinct (map fst entries)"
    and np: "''__proto__'' \<notin> fst ` set entries"
    and agree: "\<forall>k \<in> fst ` set entries. map_of result k = map_of target k"
  shows "fst (deepMerge_loop result ObjectPrototype entries) = merge_spec_each target result entries"
  using assms
proof (induction entries arbitrary: result)
  case Nil
  then show ?case by simp
next
  case (Cons e rest)
  obtain key v where e: "e = (key, v)" by (cases e)
  from Cons.prems(2,3) e have dr: "distinct (map fst rest)" and knotin: "key \<notin> fst ` set rest"
    and key: "key \<noteq> ''__proto__''" and npr: "''__proto__'' \<notin> fst ` set rest"
    by auto
  let ?code = "(case v of
        JNull \<Rightarrow> AList.delete key result
      | JObj s \<Rightarrow>
          (case map_of result key of
             Some (JObj t) \<Rightarrow> AList.update key (JObj (deepMerge t s)) result
           | _ \<Rightarrow> AList.update key v result)
      | _ \<Rightarrow> AList.update key v result)"
  let ?spec = "(case v of
        JNull \<Rightarrow> AList.delete key result
      | JObj s \<Rightarrow>
          (case map_of target key of
             Some (JObj t) \<Rightarrow> AList.update key (JObj (merge_spec t s)) result
           | _ \<Rightarrow> AList.update key v result)
      | _ \<Rightarrow> AList.update key v result)"
  from Cons.prems(4) e have k: "map_of result key = map_of target key" by simp
  have here: "deepMerge t s = merge_spec t s" if "v = JObj s" for s t
    using Cons.prems(1) [of key s t] that e by simp
  have eq: "?code = ?spec"
    using here k by (auto split: json.splits option.splits)
  have agree': "\<forall>k \<in> fst ` set rest. map_of ?code k = map_of target k"
  proof
    fix k assume "k \<in> fst ` set rest"
    with knotin Cons.prems(4) have "k \<noteq> key" "map_of result k = map_of target k" by auto
    then show "map_of ?code k = map_of target k"
      by (auto split: json.splits option.splits simp: update_conv')
  qed
  have nested': "\<And>k s t. (k, JObj s) \<in> set rest \<Longrightarrow> deepMerge t s = merge_spec t s"
    using Cons.prems(1) by (meson list.set_intros(2))
  have "fst (deepMerge_loop ?code ObjectPrototype rest) = merge_spec_each target ?code rest"
    by (rule Cons.IH [OF nested' dr npr agree'])
  with eq show ?case
    unfolding e deepMerge_loop_own [OF key] by simp
qed

lemma deepMerge_refines_aux:
  "wf_json v \<Longrightarrow> no_proto_key v \<Longrightarrow> v = JObj source \<Longrightarrow>
   deepMerge target source = merge_spec target source"
proof (induction v arbitrary: source target)
  case (JObj kvs)
  from JObj.prems have src: "source = kvs" by simp
  have nested: "deepMerge t s = merge_spec t s" if "(k, JObj s) \<in> set kvs" for k s t
  proof -
    from JObj.prems(1,2)
    have "\<forall>x \<in> set kvs. wf_json (snd x)" "\<forall>x \<in> set kvs. no_proto_key (snd x)"
      by (auto simp: list_all_iff)
    with that have "wf_json (snd (k, JObj s))" "no_proto_key (snd (k, JObj s))"
      by blast+
    then have "wf_json (JObj s)" "no_proto_key (JObj s)"
      by (simp_all only: snd_conv)
    with JObj.IH [of "(k, JObj s)" "JObj s" s t] that show ?thesis by simp
  qed
  from JObj.prems(1,2) have d: "distinct (map fst kvs)" and np: "''__proto__'' \<notin> fst ` set kvs"
    by (auto simp: list_all_iff)
  have "fst (deepMerge_loop target ObjectPrototype kvs) = merge_spec_each target target kvs"
    by (rule deepMerge_loop_refines [OF nested d np]) simp_all
  then show ?case by (simp add: src deepMerge_def)
qed simp_all

text \<open>
  What the loop leaves at each key, for a source with each key once and without the key
  \<^verbatim>\<open>__proto__\<close>: the key-wise reading of the three branches.
\<close>

lemma deepMerge_loop_lookup:
  "distinct (map fst entries) \<Longrightarrow> ''__proto__'' \<notin> fst ` set entries \<Longrightarrow>
   map_of (fst (deepMerge_loop result ObjectPrototype entries)) k =
     (case map_of entries k of
        None \<Rightarrow> map_of result k
      | Some JNull \<Rightarrow> None
      | Some (JObj s) \<Rightarrow>
          (case map_of result k of
             Some (JObj t) \<Rightarrow> Some (JObj (deepMerge t s))
           | _ \<Rightarrow> Some (JObj s))
      | Some v \<Rightarrow> Some v)"
proof (induction entries arbitrary: result)
  case Nil
  then show ?case by simp
next
  case (Cons e entries)
  obtain key v where e: "e = (key, v)" by (cases e)
  from Cons.prems e have d: "distinct (map fst entries)" and kn: "map_of entries key = None"
    and key: "key \<noteq> ''__proto__''" and np: "''__proto__'' \<notin> fst ` set entries"
    by (auto simp: map_of_eq_None_iff)
  show ?case
  proof (cases "k = key")
    case True
    with kn show ?thesis
      unfolding e deepMerge_loop_own [OF key] Cons.IH [OF d np]
      by (auto split: json.splits option.splits simp: update_conv' delete_conv')
  next
    case False
    then show ?thesis
      unfolding e deepMerge_loop_own [OF key] Cons.IH [OF d np]
      by (auto split: json.splits option.splits simp: update_conv' delete_conv')
  qed
qed

lemma deepMerge_lookup:
  "distinct (map fst source) \<Longrightarrow> ''__proto__'' \<notin> fst ` set source \<Longrightarrow>
   map_of (deepMerge target source) k =
     (case map_of source k of
        None \<Rightarrow> map_of target k
      | Some JNull \<Rightarrow> None
      | Some (JObj s) \<Rightarrow>
          (case map_of target k of
             Some (JObj t) \<Rightarrow> Some (JObj (deepMerge t s))
           | _ \<Rightarrow> Some (JObj s))
      | Some v \<Rightarrow> Some v)"
  using deepMerge_loop_lookup [of source target k] by (simp add: deepMerge_def)

lemma deepMerge_Nil [simp]: "deepMerge target [] = target"
  by (simp add: deepMerge_def)

lemma deepMerge_own_Cons:
  "key \<noteq> ''__proto__'' \<Longrightarrow>
   deepMerge target ((key, v) # rest) =
     deepMerge
       (case v of
          JNull \<Rightarrow> AList.delete key target
        | JObj s \<Rightarrow>
            (case map_of target key of
               Some (JObj t) \<Rightarrow> AList.update key (JObj (deepMerge t s)) target
             | _ \<Rightarrow> AList.update key v target)
        | _ \<Rightarrow> AList.update key v target)
       rest"
  using deepMerge_loop_own [of key target v rest]
  by (simp add: deepMerge_def del: deepMerge_loop.simps)

text \<open>
  Claim C2 says that \<open>deepMerge target source\<close> is, for all mappings, the mapping that the
  reference definition of section 4.1 describes. On every source as \<^verbatim>\<open>JSON.parse\<close> builds
  it in which no object has the key \<^verbatim>\<open>__proto__\<close>, and with a call stack that allows the
  nesting of the source, it is: the two definitions agree; key
  by key, a key that the source does not have keeps the value of the target, a null in the
  source removes the key (nothing happens if it was absent), where source and target both
  hold a mapping the result holds their merge, and any other value of the source is stored
  verbatim; and the four examples of section 8 hold. On a source with the key
  \<^verbatim>\<open>__proto__\<close> it is not. The assignment \<^verbatim>\<open>result["__proto__"] = v\<close> reaches the
  inherited setter, so merging \<open>{"__proto__": {"a": 1}}\<close> into \<open>{}\<close> gives \<open>{}\<close>, where
  the reference definition stores the value under the key; and the object that the setter
  put under \<open>result\<close> is read at the keys that follow, so merging
  \<open>{"__proto__": {"a": {"x": 1}}, "a": {"y": 2}}\<close> into \<open>{}\<close> gives \<open>{a: {x: 1, y: 2}}\<close>,
  with a field \<open>x\<close> that neither the target nor the source has at \<open>a\<close>.
\<close>

theorem deepMerge_differs_at_proto_key:
  "(wf_json (JObj source) \<and> no_proto_key (JObj source) \<longrightarrow>
      deepMerge target source = merge_spec target source)
   \<and> (distinct (map fst source) \<and> ''__proto__'' \<notin> fst ` set source \<longrightarrow>
        map_of (deepMerge target source) k =
          (case map_of source k of
             None \<Rightarrow> map_of target k
           | Some JNull \<Rightarrow> None
           | Some (JObj s) \<Rightarrow>
               (case map_of target k of
                  Some (JObj t) \<Rightarrow> Some (JObj (deepMerge t s))
                | _ \<Rightarrow> Some (JObj s))
           | Some v \<Rightarrow> Some v))
   \<and> deepMerge [] [(''a'', JNum 1)] = [(''a'', JNum 1)]
   \<and> deepMerge [(''a'', JNum 1)] [(''a'', JNull)] = []
   \<and> deepMerge [(''a'', JObj [(''b'', JNum 1)])] [(''a'', JObj [(''c'', JNum 2)])]
       = [(''a'', JObj [(''b'', JNum 1), (''c'', JNum 2)])]
   \<and> deepMerge [(''a'', JObj [(''b'', JNum 1)])] [(''a'', JNull)] = []
   \<and> deepMerge [] [(''__proto__'', JObj [(''a'', JNum 1)])] = []
   \<and> merge_spec [] [(''__proto__'', JObj [(''a'', JNum 1)])]
       = [(''__proto__'', JObj [(''a'', JNum 1)])]
   \<and> deepMerge [] [(''__proto__'', JObj [(''a'', JObj [(''x'', JNum 1)])]),
                    (''a'', JObj [(''y'', JNum 2)])]
       = [(''a'', JObj [(''x'', JNum 1), (''y'', JNum 2)])]
   \<and> merge_spec [] [(''__proto__'', JObj [(''a'', JObj [(''x'', JNum 1)])]),
                     (''a'', JObj [(''y'', JNum 2)])]
       = [(''__proto__'', JObj [(''a'', JObj [(''x'', JNum 1)])]), (''a'', JObj [(''y'', JNum 2)])]"
proof (intro conjI impI)
  assume "wf_json (JObj source) \<and> no_proto_key (JObj source)"
  then show "deepMerge target source = merge_spec target source"
    using deepMerge_refines_aux [of "JObj source" source target] by blast
next
  assume "distinct (map fst source) \<and> ''__proto__'' \<notin> fst ` set source"
  then show "map_of (deepMerge target source) k =
          (case map_of source k of
             None \<Rightarrow> map_of target k
           | Some JNull \<Rightarrow> None
           | Some (JObj s) \<Rightarrow>
               (case map_of target k of
                  Some (JObj t) \<Rightarrow> Some (JObj (deepMerge t s))
                | _ \<Rightarrow> Some (JObj s))
           | Some v \<Rightarrow> Some v)"
    using deepMerge_lookup [of source target k] by blast
next
  show "deepMerge [] [(''__proto__'', JObj [(''a'', JNum 1)])] = []"
    by (simp add: deepMerge_def plain_object_def set_result_def get_result_def)
next
  show "deepMerge [] [(''__proto__'', JObj [(''a'', JObj [(''x'', JNum 1)])]),
                    (''a'', JObj [(''y'', JNum 2)])]
       = [(''a'', JObj [(''x'', JNum 1), (''y'', JNum 2)])]"
    by (simp add: deepMerge_def plain_object_def set_result_def get_result_def)
qed (simp_all add: deepMerge_own_Cons)

theorem deepMerge_differs_at_proto_key_witness:
  "wf_json (JObj [(''a'', JObj [(''c'', JNum 2)]), (''d'', JNull)])
   \<and> no_proto_key (JObj [(''a'', JObj [(''c'', JNum 2)]), (''d'', JNull)])
   \<and> deepMerge [(''a'', JObj [(''b'', JNum 1)]), (''d'', JStr ''x'')]
        [(''a'', JObj [(''c'', JNum 2)]), (''d'', JNull)]
      = merge_spec [(''a'', JObj [(''b'', JNum 1)]), (''d'', JStr ''x'')]
          [(''a'', JObj [(''c'', JNum 2)]), (''d'', JNull)]
   \<and> merge_spec [(''a'', JObj [(''b'', JNum 1)]), (''d'', JStr ''x'')]
          [(''a'', JObj [(''c'', JNum 2)]), (''d'', JNull)]
      = [(''a'', JObj [(''b'', JNum 1), (''c'', JNum 2)])]"
  using deepMerge_differs_at_proto_key
    [of "[(''a'', JObj [(''c'', JNum 2)]), (''d'', JNull)]"
        "[(''a'', JObj [(''b'', JNum 1)]), (''d'', JStr ''x'')]"]
  by simp

section \<open>MergeEngine on a store: results\<close>

lemma length_put_own [simp]: "length (put_own h a ob) = length h"
  by (simp add: put_own_def)

lemma length_put_proto [simp]: "length (put_proto h a p) = length h"
  by (simp add: put_proto_def)

lemma length_set_resultH [simp]: "length (set_resultH h result key v) = length h"
  by (simp add: set_resultH_def split: found.splits hval.splits)

lemma nth_put_own_other [simp]: "b \<noteq> a \<Longrightarrow> put_own h a ob ! b = h ! b"
  by (simp add: put_own_def)

lemma nth_put_proto_other [simp]: "b \<noteq> a \<Longrightarrow> put_proto h a p ! b = h ! b"
  by (simp add: put_proto_def)

lemma nth_set_resultH_other [simp]: "b \<noteq> result \<Longrightarrow> set_resultH h result key v ! b = h ! b"
  by (simp add: set_resultH_def split: found.splits hval.splits)

lemma own_put_own_same [simp]: "a < length h \<Longrightarrow> own (put_own h a ob) a = ob"
  by (simp add: own_def put_own_def)

lemma own_put_own_other [simp]: "b \<noteq> a \<Longrightarrow> own (put_own h a ob) b = own h b"
  by (simp add: own_def)

lemma snd_put_own [simp]: "snd (put_own h a ob ! b) = snd (h ! b)"
  by (cases "b = a"; cases "a < length h") (simp_all add: put_own_def list_update_beyond)

lemma own_put_proto [simp]: "own (put_proto h a p) b = own h b"
  by (cases "b = a"; cases "a < length h") (simp_all add: own_def put_proto_def list_update_beyond)

lemma own_append [simp]: "a < length h \<Longrightarrow> own (h @ hs) a = own h a"
  by (simp add: own_def nth_append)

lemma own_append_new [simp]: "own (h @ [(ob, p)]) (length h) = ob"
  by (simp add: own_def)

lemma own_cong: "h2 ! a = h ! a \<Longrightarrow> own h2 a = own h a"
  by (simp add: own_def)

lemma get_prop_update: "get_prop (AList.update key v ob) k = (if k = key then v else get_prop ob k)"
  by (simp add: get_prop_def update_conv')

lemma get_prop_delete_other: "k \<noteq> key \<Longrightarrow> get_prop (AList.delete key ob) k = get_prop ob k"
  by (simp add: get_prop_def delete_conv')

lemma get_prop_delete_same: "get_prop (AList.delete key ob) key = HUndefined"
  by (simp add: get_prop_def delete_conv')

lemma get_prop_HObj_mem: "get_prop ob key = HObj b \<Longrightarrow> (key, HObj b) \<in> set ob"
  by (auto simp: get_prop_def split: option.splits dest: map_of_SomeD)

lemma get_prop_HObj_map_of: "get_prop ob k = HObj b \<Longrightarrow> map_of ob k = Some (HObj b)"
  by (auto simp: get_prop_def split: option.splits)

text \<open>
  An assignment to \<^verbatim>\<open>result[key]\<close> leaves the own properties of \<open>result\<close> at every other
  key as they were.
\<close>

lemma get_prop_set_resultH_other:
  assumes "k \<noteq> key"
  shows "get_prop (own (set_resultH h result key v) result) k = get_prop (own h result) k"
proof (cases "result < length h")
  case True
  with assms show ?thesis
    by (simp add: set_resultH_def get_prop_update split: found.splits hval.splits)
next
  case False
  then have "set_resultH h result key v = h"
    by (simp add: set_resultH_def put_own_def put_proto_def list_update_beyond
        split: found.splits hval.splits)
  then show ?thesis by simp
qed

text \<open>
  Where \<open>result\<close> has the key as an own property, the lookup ends there: the read gives
  the own value and the assignment overwrites it.
\<close>

lemma lookup_own:
  "result < length h \<Longrightarrow> map_of (own h result) key = Some x \<Longrightarrow>
   lookup (length h) h (HObj result) key = Data x"
  by (cases "length h") simp_all

lemma get_resultH_own:
  "result < length h \<Longrightarrow> map_of (own h result) key = Some x \<Longrightarrow> get_resultH h result key = x"
  by (simp add: get_resultH_def lookup_own)

lemma set_resultH_own:
  "result < length h \<Longrightarrow> map_of (own h result) key = Some x \<Longrightarrow>
   set_resultH h result key v = put_own h result (AList.update key v (own h result))"
  by (simp add: set_resultH_def lookup_own)

text \<open>
  While the prototype of \<open>result\<close> is \<^verbatim>\<open>Object.prototype\<close>, every key other than
  \<^verbatim>\<open>__proto__\<close> is read and written as an own property.
\<close>

lemma lookup_plain:
  "result < length h \<Longrightarrow> snd (h ! result) = HObjectPrototype \<Longrightarrow> key \<noteq> ''__proto__'' \<Longrightarrow>
   lookup (length h) h (HObj result) key
     = (case map_of (own h result) key of Some x \<Rightarrow> Data x | None \<Rightarrow> Absent)"
  by (cases "length h") (simp_all split: option.splits)

lemma get_resultH_plain:
  "result < length h \<Longrightarrow> snd (h ! result) = HObjectPrototype \<Longrightarrow> key \<noteq> ''__proto__'' \<Longrightarrow>
   get_resultH h result key = get_prop (own h result) key"
  by (simp add: get_resultH_def lookup_plain get_prop_def split: option.splits)

lemma set_resultH_plain:
  "result < length h \<Longrightarrow> snd (h ! result) = HObjectPrototype \<Longrightarrow> key \<noteq> ''__proto__'' \<Longrightarrow>
   set_resultH h result key v = put_own h result (AList.update key v (own h result))"
  by (simp add: set_resultH_def lookup_plain split: option.splits)

text \<open>The three branches of the loop body, one equation each.\<close>

lemma loop_null:
  "get_prop (own h source) key = HNull \<Longrightarrow>
   deepMergeH_loop depth h result source (key # keys)
     = deepMergeH_loop depth (put_own h result (AList.delete key (own h result))) result source keys"
  by simp

lemma loop_merge:
  "get_prop (own h source) key = HObj s \<Longrightarrow> plain_objectH (get_resultH h result key) \<Longrightarrow>
   deepMergeH_loop depth h result source (key # keys)
     = (case depth of
          0 \<Rightarrow> None
        | Suc d \<Rightarrow>
            (case deepMergeH d h (get_resultH h result key) s of
               None \<Rightarrow> None
             | Some (h', r) \<Rightarrow>
                 deepMergeH_loop depth (set_resultH h' result key (HObj r)) result source keys))"
  by simp

lemma loop_store:
  "get_prop (own h source) key \<noteq> HNull \<Longrightarrow>
   \<not> (\<exists>s. get_prop (own h source) key = HObj s \<and> plain_objectH (get_resultH h result key)) \<Longrightarrow>
   deepMergeH_loop depth h result source (key # keys)
     = deepMergeH_loop depth (set_resultH h result key (get_prop (own h source) key))
         result source keys"
  by (cases "get_prop (own h source) key") simp_all

lemma deepMergeH_unfold:
  "deepMergeH depth h target source = Some (h', r) \<Longrightarrow>
   source < length h \<and> r = length h \<and>
   (\<exists>copy. spread h target = Some copy \<and>
      deepMergeH_loop depth (h @ [(copy, HObjectPrototype)]) (length h) source
        (map fst (own h source)) = Some h')"
  by (auto split: if_splits option.splits)

lemma deepMergeH_unfold_HObj:
  "deepMergeH depth h (HObj target) source = Some (h', r) \<Longrightarrow>
   target < length h \<and> source < length h \<and> r = length h \<and>
   deepMergeH_loop depth (h @ [(own h target, HObjectPrototype)]) (length h) source
     (map fst (own h source)) = Some h'"
  by (auto simp: spread_def split: if_splits option.splits)

declare deepMergeH.simps [simp del]

lemma loop_merge_Some:
  assumes "get_prop (own h source) key = HObj s" "plain_objectH (get_resultH h result key)"
    and "deepMergeH_loop depth h result source (key # keys) = Some h''"
  obtains d h1 r1 where "depth = Suc d"
    "deepMergeH d h (get_resultH h result key) s = Some (h1, r1)"
    "deepMergeH_loop depth (set_resultH h1 result key (HObj r1)) result source keys = Some h''"
proof (cases depth)
  case 0
  with assms show ?thesis by (simp add: loop_merge)
next
  case (Suc d)
  with assms show ?thesis
    by (cases "deepMergeH d h (get_resultH h result key) s") (auto simp add: loop_merge intro: that)
qed

text \<open>
  Frame: the loop writes to the object at \<open>result\<close> and to objects allocated by nested
  calls; a call leaves every object of the store it started from as it was.
\<close>

lemma loop_frame:
  assumes nested: "\<And>d h t s h' r. depth = Suc d \<Longrightarrow> deepMergeH d h t s = Some (h', r) \<Longrightarrow>
      length h < length h' \<and> (\<forall>a < length h. h' ! a = h ! a)"
  shows "deepMergeH_loop depth h result source keys = Some h'' \<Longrightarrow>
     length h \<le> length h'' \<and> (\<forall>a < length h. a \<noteq> result \<longrightarrow> h'' ! a = h ! a)"
proof (induction keys arbitrary: h)
  case Nil
  then show ?case by simp
next
  case (Cons key keys)
  consider (null) "get_prop (own h source) key = HNull"
    | (merge) s where "get_prop (own h source) key = HObj s"
        "plain_objectH (get_resultH h result key)"
    | (store) "get_prop (own h source) key \<noteq> HNull"
        "\<not> (\<exists>s. get_prop (own h source) key = HObj s \<and> plain_objectH (get_resultH h result key))"
    by blast
  then show ?case
  proof cases
    case null
    from Cons.prems
    have "deepMergeH_loop depth (put_own h result (AList.delete key (own h result))) result source keys = Some h''"
      unfolding loop_null [OF null] .
    from Cons.IH [OF this] show ?thesis by simp
  next
    case merge
    from loop_merge_Some [OF merge Cons.prems] obtain d h1 r1 where d: "depth = Suc d"
      and run: "deepMergeH d h (get_resultH h result key) s = Some (h1, r1)"
      and rest: "deepMergeH_loop depth (set_resultH h1 result key (HObj r1)) result source keys = Some h''"
      by blast
    from nested [OF d run] have n: "length h < length h1" "\<forall>a < length h. h1 ! a = h ! a"
      by simp_all
    from Cons.IH [OF rest] have r: "length h1 \<le> length h''"
      "\<forall>a < length h1. a \<noteq> result \<longrightarrow> h'' ! a = (set_resultH h1 result key (HObj r1)) ! a"
      by simp_all
    show ?thesis using n r by auto
  next
    case store
    from Cons.prems have "deepMergeH_loop depth
         (set_resultH h result key (get_prop (own h source) key)) result source keys = Some h''"
      unfolding loop_store [OF store] .
    from Cons.IH [OF this] show ?thesis by simp
  qed
qed

lemma deepMergeH_frame:
  "deepMergeH depth h target source = Some (h', r) \<Longrightarrow>
     length h < length h' \<and> (\<forall>a < length h. h' ! a = h ! a)"
proof (induction depth arbitrary: h target source h' r rule: less_induct)
  case (less depth)
  from deepMergeH_unfold [OF less.prems] obtain copy
    where loop: "deepMergeH_loop depth (h @ [(copy, HObjectPrototype)]) (length h) source
        (map fst (own h source)) = Some h'"
    by blast
  let ?h1 = "h @ [(copy, HObjectPrototype)]"
  have "length ?h1 \<le> length h' \<and> (\<forall>a < length ?h1. a \<noteq> length h \<longrightarrow> h' ! a = ?h1 ! a)"
  proof (rule loop_frame [OF _ loop])
    fix d h0 t s h1 r1
    assume "depth = Suc d" "deepMergeH d h0 t s = Some (h1, r1)"
    then show "length h0 < length h1 \<and> (\<forall>a < length h0. h1 ! a = h0 ! a)"
      using less.IH [of d h0 t s h1 r1] by simp
  qed
  then show ?case by (auto simp: nth_append)
qed

lemma loop_frame':
  "deepMergeH_loop depth h result source keys = Some h'' \<Longrightarrow>
     length h \<le> length h'' \<and> (\<forall>a < length h. a \<noteq> result \<longrightarrow> h'' ! a = h ! a)"
  by (rule loop_frame [where depth = depth]) (auto dest: deepMergeH_frame)

lemma objects_along_bound:
  "objects_along h x p = Some as \<Longrightarrow> \<forall>a \<in> set as. a < length h"
proof (induction p arbitrary: x as)
  case Nil
  then show ?case by (auto split: if_splits)
next
  case (Cons key p)
  then show ?case
    by (auto split: if_splits hval.splits)
qed

lemma objects_along_agree:
  "objects_along h x p = Some as \<Longrightarrow> \<forall>a \<in> set as. a < length h2 \<and> h2 ! a = h ! a \<Longrightarrow>
   objects_along h2 x p = Some as"
proof (induction p arbitrary: x as)
  case Nil
  then show ?case by (auto split: if_splits)
next
  case (Cons key p)
  from Cons.prems(1) obtain b bs where x: "x < length h"
    and b: "get_prop (own h x) key = HObj b" and bs: "objects_along h b p = Some bs"
    and as: "as = x # bs"
    by (auto split: if_splits hval.splits)
  from Cons.prems(2) as have x2: "x < length h2" "h2 ! x = h ! x"
    and rest: "\<forall>a \<in> set bs. a < length h2 \<and> h2 ! a = h ! a" by simp_all
  from Cons.IH [OF bs rest] x2 b as show ?case by (simp add: own_def)
qed

text \<open>A key that the loop does not visit keeps its own property in \<open>result\<close>.\<close>

lemma loop_keeps_other_keys:
  "deepMergeH_loop depth h result source keys = Some h'' \<Longrightarrow> k \<notin> set keys \<Longrightarrow>
   result < length h \<Longrightarrow> get_prop (own h'' result) k = get_prop (own h result) k"
proof (induction keys arbitrary: h)
  case Nil
  then show ?case by simp
next
  case (Cons key keys)
  from Cons.prems have kk: "k \<noteq> key" "k \<notin> set keys" by auto
  consider (null) "get_prop (own h source) key = HNull"
    | (merge) s where "get_prop (own h source) key = HObj s"
        "plain_objectH (get_resultH h result key)"
    | (store) "get_prop (own h source) key \<noteq> HNull"
        "\<not> (\<exists>s. get_prop (own h source) key = HObj s \<and> plain_objectH (get_resultH h result key))"
    by blast
  then show ?case
  proof cases
    case null
    from Cons.prems(1)
    have "deepMergeH_loop depth (put_own h result (AList.delete key (own h result))) result source keys = Some h''"
      unfolding loop_null [OF null] .
    from Cons.IH [OF this kk(2)] Cons.prems(3) kk(1) show ?thesis
      by (simp add: get_prop_delete_other)
  next
    case merge
    from loop_merge_Some [OF merge Cons.prems(1)] obtain d h1 r1 where d: "depth = Suc d"
      and run: "deepMergeH d h (get_resultH h result key) s = Some (h1, r1)"
      and rest: "deepMergeH_loop depth (set_resultH h1 result key (HObj r1)) result source keys = Some h''"
      by blast
    from deepMergeH_frame [OF run] Cons.prems(3)
    have n: "result < length h1" "h1 ! result = h ! result" by auto
    from Cons.IH [OF rest kk(2)] n kk(1) show ?thesis
      by (simp add: get_prop_set_resultH_other own_cong [OF n(2)])
  next
    case store
    from Cons.prems(1) have "deepMergeH_loop depth
         (set_resultH h result key (get_prop (own h source) key)) result source keys = Some h''"
      unfolding loop_store [OF store] .
    from Cons.IH [OF this kk(2)] Cons.prems(3) kk(1) show ?thesis
      by (simp add: get_prop_set_resultH_other)
  qed
qed

lemma wf_heap_ref:
  "wf_heap h \<Longrightarrow> a < length h \<Longrightarrow> get_prop (own h a) key = HObj b \<Longrightarrow> b < length h"
proof -
  assume wf: "wf_heap h" and a: "a < length h" and g: "get_prop (own h a) key = HObj b"
  from a have "h ! a \<in> set h" by simp
  with wf have "\<forall>(k, v) \<in> set (own h a). ref_ok (length h) v"
    by (auto simp: wf_heap_def list_all_iff own_def)
  with get_prop_HObj_mem [OF g] show "b < length h" by fastforce
qed

lemma wf_heap_distinct: "wf_heap h \<Longrightarrow> a < length h \<Longrightarrow> distinct (map fst (own h a))"
  by (simp add: wf_heap_def list_all_length own_def)

lemma wf_heap_cell:
  "wf_heap h \<Longrightarrow> a < length h \<Longrightarrow> (k, v) \<in> set (own h a) \<Longrightarrow> ref_ok (length h) v"
proof -
  assume wf: "wf_heap h" and a: "a < length h" and mem: "(k, v) \<in> set (own h a)"
  from a have "h ! a \<in> set h" by simp
  with wf have "\<forall>(k, v) \<in> set (own h a). ref_ok (length h) v"
    by (auto simp: wf_heap_def list_all_iff own_def)
  with mem show "ref_ok (length h) v" by fastforce
qed

text \<open>
  A key of the source at which the function does not merge, in a source without the key
  \<^verbatim>\<open>__proto__\<close>: the result ends with the source's value there, or without the key when
  that value is null.
\<close>

lemma loop_verbatim:
  "deepMergeH_loop depth h result source keys = Some h'' \<Longrightarrow> result < length h \<Longrightarrow>
   source < length h \<Longrightarrow> source \<noteq> result \<Longrightarrow> distinct keys \<Longrightarrow> key \<in> set keys \<Longrightarrow>
   snd (h ! result) = HObjectPrototype \<Longrightarrow> ''__proto__'' \<notin> set keys \<Longrightarrow>
   \<not> (\<exists>s. get_prop (own h source) key = HObj s \<and> plain_objectH (get_prop (own h result) key)) \<Longrightarrow>
   get_prop (own h'' result) key
     = (if get_prop (own h source) key = HNull then HUndefined else get_prop (own h source) key)"
proof (induction keys arbitrary: h)
  case Nil
  then show ?case by simp
next
  case (Cons k0 keys)
  note run = Cons.prems(1) and resh = Cons.prems(2) and srch = Cons.prems(3)
    and neq = Cons.prems(4) and dist = Cons.prems(5) and mem = Cons.prems(6)
    and pr = Cons.prems(7) and nop = Cons.prems(8) and nomerge = Cons.prems(9)
  from dist have dist': "distinct keys" and k0new: "k0 \<notin> set keys" by simp_all
  from nop have k0: "k0 \<noteq> ''__proto__''" and nop': "''__proto__'' \<notin> set keys" by auto
  note getr = get_resultH_plain [OF resh pr k0]
  consider (null) "get_prop (own h source) k0 = HNull"
    | (merge) s where "get_prop (own h source) k0 = HObj s"
        "plain_objectH (get_resultH h result k0)"
    | (store) "get_prop (own h source) k0 \<noteq> HNull"
        "\<not> (\<exists>s. get_prop (own h source) k0 = HObj s \<and> plain_objectH (get_resultH h result k0))"
    by blast
  then show ?case
  proof cases
    case null
    let ?hn = "put_own h result (AList.delete k0 (own h result))"
    from run have rest: "deepMergeH_loop depth ?hn result source keys = Some h''"
      unfolding loop_null [OF null] .
    show ?thesis
    proof (cases "k0 = key")
      case True
      from loop_keeps_other_keys [OF rest k0new] resh
      have "get_prop (own h'' result) k0 = HUndefined"
        by (simp add: get_prop_delete_same)
      with True null show ?thesis by simp
    next
      case False
      with mem have mem': "key \<in> set keys" by simp
      have "get_prop (own h'' result) key
          = (if get_prop (own ?hn source) key = HNull then HUndefined
             else get_prop (own ?hn source) key)"
        using resh srch neq nomerge False pr
        by (intro Cons.IH [OF rest _ _ neq dist' mem' _ nop']) (auto simp: get_prop_delete_other)
      with neq show ?thesis by simp
    qed
  next
    case merge
    from nomerge merge getr have False: "k0 \<noteq> key" by auto
    with mem have mem': "key \<in> set keys" by simp
    from loop_merge_Some [OF merge run] obtain d h1 r1 where d: "depth = Suc d"
      and nrun: "deepMergeH d h (get_resultH h result k0) s = Some (h1, r1)"
      and rest: "deepMergeH_loop depth (set_resultH h1 result k0 (HObj r1)) result source keys = Some h''"
      by blast
    from deepMergeH_frame [OF nrun]
    have n: "length h < length h1" "\<forall>a < length h. h1 ! a = h ! a" by simp_all
    from n resh srch have same: "h1 ! result = h ! result" "h1 ! source = h ! source"
      and res1: "result < length h1" and src1: "source < length h1" by simp_all
    let ?hn = "put_own h1 result (AList.update k0 (HObj r1) (own h1 result))"
    from same pr have pr1: "snd (h1 ! result) = HObjectPrototype" by simp
    have hn: "set_resultH h1 result k0 (HObj r1) = ?hn"
      by (rule set_resultH_plain [OF res1 pr1 k0])
    from rest hn have rest': "deepMergeH_loop depth ?hn result source keys = Some h''" by simp
    have "get_prop (own h'' result) key
        = (if get_prop (own ?hn source) key = HNull then HUndefined
           else get_prop (own ?hn source) key)"
      using res1 src1 neq nomerge False pr1 same
      by (intro Cons.IH [OF rest' _ _ neq dist' mem' _ nop'])
        (auto simp: get_prop_update own_cong [OF same(1)] own_cong [OF same(2)])
    with neq same show ?thesis by (simp add: own_cong [OF same(2)])
  next
    case store
    let ?hn = "put_own h result (AList.update k0 (get_prop (own h source) k0) (own h result))"
    have hn: "set_resultH h result k0 (get_prop (own h source) k0) = ?hn"
      by (rule set_resultH_plain [OF resh pr k0])
    from run have rest: "deepMergeH_loop depth ?hn result source keys = Some h''"
      unfolding loop_store [OF store] hn .
    show ?thesis
    proof (cases "k0 = key")
      case True
      from loop_keeps_other_keys [OF rest k0new] resh
      have "get_prop (own h'' result) k0 = get_prop (own h source) k0"
        by (simp add: get_prop_update)
      with True store show ?thesis by simp
    next
      case False
      with mem have mem': "key \<in> set keys" by simp
      have "get_prop (own h'' result) key
          = (if get_prop (own ?hn source) key = HNull then HUndefined
             else get_prop (own ?hn source) key)"
        using resh srch neq nomerge False pr
        by (intro Cons.IH [OF rest _ _ neq dist' mem' _ nop']) (auto simp: get_prop_update)
      with neq show ?thesis by simp
    qed
  qed
qed

lemma deepMergeH_verbatim:
  assumes wf: "wf_heap h" and run: "deepMergeH depth h (HObj target) source = Some (h', r)"
    and mem: "key \<in> fst ` set (own h source)"
    and nop: "''__proto__'' \<notin> fst ` set (own h source)"
    and nomerge: "\<not> (\<exists>s. get_prop (own h source) key = HObj s
        \<and> plain_objectH (get_prop (own h target) key))"
  shows "get_prop (own h' r) key
     = (if get_prop (own h source) key = HNull then HUndefined else get_prop (own h source) key)"
proof -
  from deepMergeH_unfold_HObj [OF run]
  have r: "r = length h" and s: "source < length h"
    and loop: "deepMergeH_loop depth (h @ [(own h target, HObjectPrototype)]) (length h) source
        (map fst (own h source)) = Some h'"
    by simp_all
  let ?h1 = "h @ [(own h target, HObjectPrototype)]"
  have "get_prop (own h' (length h)) key
      = (if get_prop (own ?h1 source) key = HNull then HUndefined
         else get_prop (own ?h1 source) key)"
    using s mem nop nomerge wf_heap_distinct [OF wf s]
    by (intro loop_verbatim [OF loop]) (auto simp: nth_append)
  with r s show ?thesis by simp
qed

text \<open>
  A key at which both the target and the source hold a plain object: the result ends with
  the object that the nested call allocated, and so on along the path. \<open>h0\<close> is the store
  when the outermost call began.
\<close>

lemma loop_fresh:
  assumes nested: "\<And>d h t s h' r p. depth = Suc d \<Longrightarrow> length h0 \<le> length h \<Longrightarrow>
      \<forall>a < length h0. h ! a = h0 ! a \<Longrightarrow> deepMergeH d h (HObj t) s = Some (h', r) \<Longrightarrow>
      objects_along h0 t p \<noteq> None \<Longrightarrow> objects_along h0 s p \<noteq> None \<Longrightarrow>
      \<exists>as. objects_along h' r p = Some as \<and> (\<forall>a \<in> set as. length h \<le> a)"
  shows "deepMergeH_loop depth h result source keys = Some h'' \<Longrightarrow>
     length h0 \<le> result \<Longrightarrow> result < length h \<Longrightarrow> \<forall>a < length h0. h ! a = h0 ! a \<Longrightarrow>
     source < length h0 \<Longrightarrow> distinct keys \<Longrightarrow> key \<in> set keys \<Longrightarrow>
     get_prop (own h0 source) key = HObj s' \<Longrightarrow> get_prop (own h result) key = HObj t' \<Longrightarrow>
     objects_along h0 t' p \<noteq> None \<Longrightarrow> objects_along h0 s' p \<noteq> None \<Longrightarrow>
     \<exists>r' as. get_prop (own h'' result) key = HObj r' \<and> objects_along h'' r' p = Some as
        \<and> (\<forall>a \<in> set as. result < a)"
proof (induction keys arbitrary: h)
  case Nil
  then show ?case by simp
next
  case (Cons k0 keys)
  note run = Cons.prems(1) and h0res = Cons.prems(2) and resh = Cons.prems(3)
    and agree = Cons.prems(4) and src = Cons.prems(5) and dist = Cons.prems(6)
    and mem = Cons.prems(7) and sk = Cons.prems(8) and tk = Cons.prems(9)
    and pt = Cons.prems(10) and ps = Cons.prems(11)
  from agree src have srcsame: "own h source = own h0 source" by (simp add: own_def)
  from h0res resh have h0len: "length h0 \<le> length h" by simp
  from dist have dist': "distinct keys" and k0new: "k0 \<notin> set keys" by simp_all
  show ?case
  proof (cases "k0 = key")
    case True
    from sk srcsame True have sk': "get_prop (own h source) k0 = HObj s'" by simp
    from tk True have tk': "get_prop (own h result) k0 = HObj t'" by simp
    from get_prop_HObj_map_of [OF tk'] have tm: "map_of (own h result) k0 = Some (HObj t')" .
    from get_resultH_own [OF resh tm] have getr: "get_resultH h result k0 = HObj t'" .
    then have pl: "plain_objectH (get_resultH h result k0)" by simp
    from loop_merge_Some [OF sk' pl run] getr obtain d h1 r1 where d: "depth = Suc d"
      and nrun: "deepMergeH d h (HObj t') s' = Some (h1, r1)"
      and rest0: "deepMergeH_loop depth (set_resultH h1 result k0 (HObj r1)) result source keys = Some h''"
      by auto
    from deepMergeH_frame [OF nrun] have n: "length h < length h1" "\<forall>a < length h. h1 ! a = h ! a"
      by simp_all
    from n resh have res1: "result < length h1" and same1: "h1 ! result = h ! result" by simp_all
    let ?h2 = "put_own h1 result (AList.update k0 (HObj r1) (own h1 result))"
    from tm same1 have "map_of (own h1 result) k0 = Some (HObj t')" by (simp add: own_def)
    from set_resultH_own [OF res1 this]
    have h2: "set_resultH h1 result k0 (HObj r1) = ?h2" .
    from rest0 h2 have rest: "deepMergeH_loop depth ?h2 result source keys = Some h''" by simp
    from nested [OF d h0len agree nrun pt ps] obtain as
      where as: "objects_along h1 r1 p = Some as" and fresh: "\<forall>a \<in> set as. length h \<le> a"
      by blast
    from objects_along_bound [OF as] have bound: "\<forall>a \<in> set as. a < length h1" .
    have "\<forall>a \<in> set as. a < length ?h2 \<and> ?h2 ! a = h1 ! a"
      using bound fresh resh by auto
    from objects_along_agree [OF as this] have as2: "objects_along ?h2 r1 p = Some as" .
    from loop_frame' [OF rest]
    have f: "length ?h2 \<le> length h''" "\<forall>a < length ?h2. a \<noteq> result \<longrightarrow> h'' ! a = ?h2 ! a"
      by simp_all
    have "\<forall>a \<in> set as. a < length h'' \<and> h'' ! a = ?h2 ! a"
      using bound fresh resh f by auto
    from objects_along_agree [OF as2 this] have as3: "objects_along h'' r1 p = Some as" .
    from res1 have res2: "result < length ?h2" by simp
    from loop_keeps_other_keys [OF rest k0new res2] res1
    have "get_prop (own h'' result) k0 = HObj r1"
      by (simp add: get_prop_update)
    with as3 fresh resh True show ?thesis by auto
  next
    case False
    with mem have mem': "key \<in> set keys" by simp
    have step: "\<exists>hn. deepMergeH_loop depth hn result source keys = Some h''
        \<and> result < length hn \<and> (\<forall>a < length h0. hn ! a = h0 ! a)
        \<and> get_prop (own hn result) key = HObj t'"
    proof -
      consider (null) "get_prop (own h source) k0 = HNull"
        | (merge) s where "get_prop (own h source) k0 = HObj s"
            "plain_objectH (get_resultH h result k0)"
        | (store) "get_prop (own h source) k0 \<noteq> HNull"
            "\<not> (\<exists>s. get_prop (own h source) k0 = HObj s \<and> plain_objectH (get_resultH h result k0))"
        by blast
      then show ?thesis
      proof cases
        case null
        let ?hn = "put_own h result (AList.delete k0 (own h result))"
        from run have "deepMergeH_loop depth ?hn result source keys = Some h''"
          unfolding loop_null [OF null] .
        moreover have "\<forall>a < length h0. ?hn ! a = h0 ! a"
          using agree h0res by auto
        moreover have "get_prop (own ?hn result) key = HObj t'"
          using tk resh False by (simp add: get_prop_delete_other)
        ultimately show ?thesis using resh
          by (intro exI [of _ ?hn]) simp
      next
        case merge
        from loop_merge_Some [OF merge run] obtain d h1 r1 where d: "depth = Suc d"
          and nrun: "deepMergeH d h (get_resultH h result k0) s = Some (h1, r1)"
          and rest: "deepMergeH_loop depth (set_resultH h1 result k0 (HObj r1)) result source keys = Some h''"
          by blast
        let ?hn = "set_resultH h1 result k0 (HObj r1)"
        from deepMergeH_frame [OF nrun]
        have n: "length h < length h1" "\<forall>a < length h. h1 ! a = h ! a" by simp_all
        from n resh have same1: "h1 ! result = h ! result" by simp
        have "\<forall>a < length h0. ?hn ! a = h0 ! a"
          using agree h0res n h0len by auto
        moreover have "get_prop (own ?hn result) key = HObj t'"
          using tk False by (simp add: get_prop_set_resultH_other own_cong [OF same1])
        ultimately show ?thesis using resh n rest
          by (intro exI [of _ ?hn]) simp
      next
        case store
        let ?hn = "set_resultH h result k0 (get_prop (own h source) k0)"
        from run have "deepMergeH_loop depth ?hn result source keys = Some h''"
          unfolding loop_store [OF store] .
        moreover have "\<forall>a < length h0. ?hn ! a = h0 ! a"
          using agree h0res by auto
        moreover have "get_prop (own ?hn result) key = HObj t'"
          using tk False by (simp add: get_prop_set_resultH_other)
        ultimately show ?thesis using resh
          by (intro exI [of _ ?hn]) simp
      qed
    qed
    then obtain hn where hn: "deepMergeH_loop depth hn result source keys = Some h''"
      "result < length hn" "\<forall>a < length h0. hn ! a = h0 ! a"
      "get_prop (own hn result) key = HObj t'" by blast
    from Cons.IH [OF hn(1) h0res hn(2) hn(3) src dist' mem' sk hn(4) pt ps]
    show ?thesis .
  qed
qed

lemma deepMergeH_fresh:
  "deepMergeH depth h (HObj target) source = Some (h', r) \<Longrightarrow> length h0 \<le> length h \<Longrightarrow>
   \<forall>a < length h0. h ! a = h0 ! a \<Longrightarrow> wf_heap h0 \<Longrightarrow>
   objects_along h0 target p \<noteq> None \<Longrightarrow> objects_along h0 source p \<noteq> None \<Longrightarrow>
   \<exists>as. objects_along h' r p = Some as \<and> (\<forall>a \<in> set as. length h \<le> a)"
proof (induction depth arbitrary: h target source h' r p rule: less_induct)
  case (less depth)
  note run = less.prems(1) and h0len = less.prems(2) and agree = less.prems(3)
    and wf = less.prems(4) and pt = less.prems(5) and ps = less.prems(6)
  from deepMergeH_unfold_HObj [OF run]
  have r: "r = length h"
    and loop: "deepMergeH_loop depth (h @ [(own h target, HObjectPrototype)]) (length h) source
        (map fst (own h source)) = Some h'"
    by simp_all
  let ?h1 = "h @ [(own h target, HObjectPrototype)]"
  from deepMergeH_frame [OF run] have len: "length h < length h'" by simp
  show ?case
  proof (cases p)
    case Nil
    with r len show ?thesis by simp
  next
    case (Cons key p')
    from pt Cons obtain t' where t0: "target < length h0"
      and tk: "get_prop (own h0 target) key = HObj t'" and pt': "objects_along h0 t' p' \<noteq> None"
      by (auto split: if_splits hval.splits)
    from ps Cons obtain s' where s0: "source < length h0"
      and sk: "get_prop (own h0 source) key = HObj s'" and ps': "objects_along h0 s' p' \<noteq> None"
      by (auto split: if_splits hval.splits)
    from agree s0 t0 have same: "own h source = own h0 source" "own h target = own h0 target"
      by (simp_all add: own_def)
    from wf s0 have dist: "distinct (map fst (own h source))"
      using wf_heap_distinct [OF wf s0] same by simp
    from sk have mem: "key \<in> set (map fst (own h source))"
      by (auto simp: get_prop_def same split: option.splits dest: map_of_SomeD intro: rev_image_eqI)
    have agree': "\<forall>a < length h0. ?h1 ! a = h0 ! a"
      using agree h0len by (simp add: nth_append)
    have tk': "get_prop (own ?h1 (length h)) key = HObj t'"
      using tk same by simp
    have "\<exists>r' as. get_prop (own h' (length h)) key = HObj r' \<and> objects_along h' r' p' = Some as
        \<and> (\<forall>a \<in> set as. length h < a)"
    proof (rule loop_fresh [OF _ loop h0len _ agree' s0 dist mem sk tk' pt' ps'])
      fix d h1 t s h2 r2 q
      assume "depth = Suc d" "length h0 \<le> length h1" "\<forall>a < length h0. h1 ! a = h0 ! a"
        "deepMergeH d h1 (HObj t) s = Some (h2, r2)" "objects_along h0 t q \<noteq> None"
        "objects_along h0 s q \<noteq> None"
      then show "\<exists>as. objects_along h2 r2 q = Some as \<and> (\<forall>a \<in> set as. length h1 \<le> a)"
        using less.IH [of d h1 t s h2 r2 q] wf by simp
    qed simp
    then obtain r' as where "get_prop (own h' (length h)) key = HObj r'"
      "objects_along h' r' p' = Some as" "\<forall>a \<in> set as. length h < a" by blast
    with r len Cons show ?thesis by auto
  qed
qed

lemma props_of_delete:
  "props_of arrs n h ps = Some R \<Longrightarrow>
   props_of arrs n h (AList.delete k ps) = Some (AList.delete k R)"
  by (induction ps arbitrary: R) (auto split: option.splits)

lemma props_of_update:
  "props_of arrs n h ps = Some R \<Longrightarrow> json_of arrs n h v = Some j \<Longrightarrow>
   props_of arrs n h (AList.update k v ps) = Some (AList.update k j R)"
  by (induction ps arbitrary: R) (auto split: option.splits)

lemma props_of_lookup:
  "props_of arrs n h ps = Some R \<Longrightarrow>
   map_of R k = (case map_of ps k of None \<Rightarrow> None | Some v \<Rightarrow> json_of arrs n h v)"
  by (induction ps arbitrary: R) (auto split: option.splits)

lemma props_of_member:
  "props_of arrs n h ps = Some R \<Longrightarrow> (k, v) \<in> set ps \<Longrightarrow> json_of arrs n h v \<noteq> None"
  by (induction ps arbitrary: R) (auto split: option.splits)

lemma json_of_JObj: "json_of arrs n h v = Some (JObj T) \<Longrightarrow> \<exists>a. v = HObj a"
  by (cases v) auto

lemma json_of_JNull: "json_of arrs n h v = Some JNull \<Longrightarrow> v = HNull"
  by (cases v; cases n) (auto split: if_splits)

lemma json_of_extend_aux:
  "length h \<le> length h2 \<Longrightarrow> \<forall>a < length h. h2 ! a = h ! a \<Longrightarrow>
     json_of arrs n h v = Some j \<Longrightarrow> json_of arrs n h2 v = Some j"
  "length h \<le> length h2 \<Longrightarrow> \<forall>a < length h. h2 ! a = h ! a \<Longrightarrow>
     props_of arrs n h ps = Some R \<Longrightarrow> props_of arrs n h2 ps = Some R"
proof (induction arrs n h v and arrs n h ps arbitrary: j and R rule: json_of_props_of.induct)
  case (9 arrs n h a)
  from "9.prems"(3) obtain T where a: "a < length h" and T: "props_of arrs n h (own h a) = Some T"
    and j: "j = JObj T"
    by (auto split: if_splits)
  from a "9.prems"(1,2) have a2: "a < length h2" "own h2 a = own h a" by (simp_all add: own_def)
  from "9.IH" [OF a "9.prems"(1,2) T] have "props_of arrs n h2 (own h a) = Some T" .
  with a2 j show ?case by simp
next
  case (11 arrs n h k v ps)
  then show ?case by (auto split: option.splits)
qed simp_all

lemma ref_ok_up: "ref_ok L v \<Longrightarrow> ref_up L x v"
  by (cases v) simp_all

lemma layered_cell:
  "layered L h \<Longrightarrow> a < length h \<Longrightarrow> L \<le> x \<Longrightarrow> a < L \<or> x \<le> a \<Longrightarrow>
   (k, v) \<in> set (own h a) \<Longrightarrow> ref_up L x v"
proof -
  assume lay: "layered L h" and a: "a < length h" and x: "L \<le> x" and ax: "a < L \<or> x \<le> a"
    and mem: "(k, v) \<in> set (own h a)"
  from lay a mem have c: "(a < L \<longrightarrow> ref_ok L v) \<and> (L \<le> a \<longrightarrow> ref_up L a v)"
    unfolding layered_def by fastforce
  show "ref_up L x v"
  proof (cases "a < L")
    case True
    with c show ?thesis by (simp add: ref_ok_up)
  next
    case False
    with c ax have "ref_up L a v" "x \<le> a" by simp_all
    then show ?thesis by (cases v) auto
  qed
qed

text \<open>
  A write to the object at \<open>x\<close> does not change the document held by a value from which
  \<open>x\<close> cannot be reached.
\<close>

lemma json_of_stable:
  "layered L h \<Longrightarrow> L \<le> x \<Longrightarrow> length h \<le> length h2 \<Longrightarrow>
     \<forall>a < length h. a \<noteq> x \<longrightarrow> h2 ! a = h ! a \<Longrightarrow> ref_up L x v \<Longrightarrow>
     json_of arrs n h v = Some j \<Longrightarrow> json_of arrs n h2 v = Some j"
  "layered L h \<Longrightarrow> L \<le> x \<Longrightarrow> length h \<le> length h2 \<Longrightarrow>
     \<forall>a < length h. a \<noteq> x \<longrightarrow> h2 ! a = h ! a \<Longrightarrow> \<forall>p \<in> set ps. ref_up L x (snd p) \<Longrightarrow>
     props_of arrs n h ps = Some R \<Longrightarrow> props_of arrs n h2 ps = Some R"
proof (induction arrs n h v and arrs n h ps arbitrary: j and R rule: json_of_props_of.induct)
  case (9 arrs n h a)
  note lay = "9.prems"(1) and x = "9.prems"(2) and len = "9.prems"(3) and same = "9.prems"(4)
    and up = "9.prems"(5) and run = "9.prems"(6)
  from run obtain T where a: "a < length h" and T: "props_of arrs n h (own h a) = Some T"
    and j: "j = JObj T"
    by (auto split: if_splits)
  from up x have ax: "a < L \<or> x < a" by auto
  with x have "a \<noteq> x" by auto
  with a len same have a2: "a < length h2" "own h2 a = own h a" by (simp_all add: own_def)
  have "\<forall>p \<in> set (own h a). ref_up L x (snd p)"
    using layered_cell [OF lay a x] ax by auto
  from "9.IH" [OF a lay x len same this T] have "props_of arrs n h2 (own h a) = Some T" .
  with a2 j show ?case by simp
next
  case (11 arrs n h k v ps)
  then show ?case by (auto split: option.splits)
qed simp_all

lemma layered_update:
  assumes lay: "layered L h" and res: "L \<le> result" and ob: "\<forall>p \<in> set ob. ref_up L result (snd p)"
  shows "layered L (put_own h result ob)"
  unfolding layered_def
proof (intro allI impI ballI)
  fix a p
  assume a: "a < length (put_own h result ob)" and p: "p \<in> set (own (put_own h result ob) a)"
  show "(a < L \<longrightarrow> ref_ok L (snd p)) \<and> (L \<le> a \<longrightarrow> ref_up L a (snd p))"
  proof (cases "a = result")
    case True
    with a p ob res show ?thesis by simp
  next
    case False
    with a p lay show ?thesis unfolding layered_def by simp
  qed
qed

lemma layered_alloc:
  assumes lay: "layered L h" and len: "L \<le> length h" and ob: "\<forall>p \<in> set ob. ref_ok L (snd p)"
  shows "layered L (h @ [(ob, pr)])"
  unfolding layered_def
proof (intro allI impI ballI)
  fix a p
  assume a: "a < length (h @ [(ob, pr)])" and p: "p \<in> set (own (h @ [(ob, pr)]) a)"
  show "(a < L \<longrightarrow> ref_ok L (snd p)) \<and> (L \<le> a \<longrightarrow> ref_up L a (snd p))"
  proof (cases "a < length h")
    case True
    with p lay show ?thesis unfolding layered_def by simp
  next
    case False
    with a have "a = length h" by simp
    with p ob len show ?thesis by (simp add: ref_ok_up)
  qed
qed

lemma set_update_subset: "set (AList.update k v ob) \<subseteq> insert (k, v) (set ob)"
  by (induction ob) auto

lemma set_delete_subset: "set (AList.delete k ob) \<subseteq> set ob"
  by (induction ob) auto

lemma deepMerge_loop_null:
  "deepMerge_loop R p ((k, JNull) # rest) = deepMerge_loop (AList.delete k R) p rest"
  by simp

lemma deepMerge_loop_merge:
  "k \<noteq> ''__proto__'' \<Longrightarrow> map_of R k = Some (JObj T) \<Longrightarrow>
   deepMerge_loop R ObjectPrototype ((k, JObj S) # rest)
     = deepMerge_loop (AList.update k (JObj (deepMerge T S)) R) ObjectPrototype rest"
  by (simp add: deepMerge_loop_own del: deepMerge_loop.simps)

lemma deepMerge_loop_store:
  "k \<noteq> ''__proto__'' \<Longrightarrow> v \<noteq> JNull \<Longrightarrow>
   \<not> (\<exists>S T. v = JObj S \<and> map_of R k = Some (JObj T)) \<Longrightarrow>
   deepMerge_loop R ObjectPrototype ((k, v) # rest)
     = deepMerge_loop (AList.update k v R) ObjectPrototype rest"
  by (cases v; cases "map_of R k")
    (auto simp add: deepMerge_loop_own simp del: deepMerge_loop.simps split: json.splits)

lemma layered_result_props:
  "layered L h \<Longrightarrow> L \<le> result \<Longrightarrow> result < length h \<Longrightarrow>
   \<forall>p \<in> set (own h result). ref_up L result (snd p)"
  using layered_cell [of L h result result] by auto

text \<open>
  Simulation, for a source in which no object has the key \<^verbatim>\<open>__proto__\<close>: each round of
  the loop on the store does to the document held at \<open>result\<close> what the loop of the first
  model does to its \<open>result\<close>.
\<close>

lemma loop_computes:
  assumes nested: "\<And>m h t s T S. depth = Suc m \<Longrightarrow> layered L h \<Longrightarrow> L \<le> length h \<Longrightarrow>
      \<forall>a < L. h ! a = h0 ! a \<Longrightarrow> t < L \<Longrightarrow> s < L \<Longrightarrow>
      props_of arrs m h0 (own h0 t) = Some T \<Longrightarrow> props_of arrs m h0 (own h0 s) = Some S \<Longrightarrow>
      no_proto_key (JObj S) \<Longrightarrow>
      \<exists>h' r. deepMergeH m h (HObj t) s = Some (h', r) \<and> layered L h'
        \<and> props_of arrs m h' (own h' r) = Some (deepMerge T S)"
    and wf: "wf_heap h0" and L: "L = length h0" and src: "source < L" and tgt: "target < L"
    and dist: "distinct (map fst (own h0 source))"
    and T0: "props_of arrs depth h0 (own h0 target) = Some T0"
  shows "layered L h \<Longrightarrow> L \<le> result \<Longrightarrow> result < length h \<Longrightarrow> \<forall>a < L. h ! a = h0 ! a \<Longrightarrow>
     snd (h ! result) = HObjectPrototype \<Longrightarrow>
     props_of arrs depth h (own h result) = Some R \<Longrightarrow>
     set sprops \<subseteq> set (own h0 source) \<Longrightarrow> distinct (map fst sprops) \<Longrightarrow>
     props_of arrs depth h0 sprops = Some Srest \<Longrightarrow> no_proto_key (JObj Srest) \<Longrightarrow>
     \<forall>k \<in> fst ` set sprops. get_prop (own h result) k = get_prop (own h0 target) k
        \<and> map_of R k = map_of T0 k \<Longrightarrow>
     \<exists>h''. deepMergeH_loop depth h result source (map fst sprops) = Some h'' \<and> layered L h''
        \<and> props_of arrs depth h'' (own h'' result)
            = Some (fst (deepMerge_loop R ObjectPrototype Srest))"
proof (induction sprops arbitrary: h R Srest)
  case Nil
  then show ?case by simp
next
  case (Cons e sprops)
  obtain k hv where e: "e = (k, hv)" by (cases e)
  note lay = Cons.prems(1) and Lres = Cons.prems(2) and resh = Cons.prems(3)
    and agree = Cons.prems(4) and pr = Cons.prems(5) and R = Cons.prems(6)
    and sub = Cons.prems(7) and sdist = Cons.prems(8) and S = Cons.prems(9)
    and np = Cons.prems(10) and keep = Cons.prems(11)
  from S e obtain v Srest' where v: "json_of arrs depth h0 hv = Some v"
    and S': "props_of arrs depth h0 sprops = Some Srest'" and Srest: "Srest = (k, v) # Srest'"
    by (auto split: option.splits)
  from np Srest have kp: "k \<noteq> ''__proto__''" and npv: "no_proto_key v"
    and np': "no_proto_key (JObj Srest')"
    by simp_all
  from sub e have mem: "(k, hv) \<in> set (own h0 source)" and sub': "set sprops \<subseteq> set (own h0 source)"
    by simp_all
  from sdist e have sdist': "distinct (map fst sprops)" and knew: "k \<notin> fst ` set sprops"
    by simp_all
  from mem dist have "map_of (own h0 source) k = Some hv" by simp
  with agree src have sk: "get_prop (own h source) k = hv" by (simp add: get_prop_def own_def)
  from keep e have rk: "get_prop (own h result) k = get_prop (own h0 target) k"
    and Rk: "map_of R k = map_of T0 k" by simp_all
  from L Lres resh have Llen: "L \<le> length h" by simp
  note getr = get_resultH_plain [OF resh pr kp]
  have up: "\<forall>p \<in> set (own h result). ref_up L result (snd p)"
    by (rule layered_result_props [OF lay Lres resh])
  have rjson: "get_prop (own h result) k = HUndefined \<or> json_of arrs depth h (get_prop (own h result) k) \<noteq> None"
  proof (cases "map_of (own h result) k")
    case None
    then show ?thesis by (simp add: get_prop_def)
  next
    case (Some x)
    from props_of_member [OF R map_of_SomeD [OF Some]] Some show ?thesis
      by (simp add: get_prop_def)
  qed
  then have rplain: "plain_objectH (get_prop (own h result) k) = (\<exists>t. get_prop (own h result) k = HObj t)"
    by (cases "get_prop (own h result) k") auto
  have step: "\<exists>h''. deepMergeH_loop depth hn result source (map fst sprops) = Some h''
        \<and> layered L h'' \<and> props_of arrs depth h'' (own h'' result)
            = Some (fst (deepMerge_loop Rn ObjectPrototype Srest'))"
    if "layered L hn" "result < length hn" "\<forall>a < L. hn ! a = h0 ! a"
      "snd (hn ! result) = HObjectPrototype"
      "props_of arrs depth hn (own hn result) = Some Rn"
      "\<forall>k' \<in> fst ` set sprops. get_prop (own hn result) k' = get_prop (own h result) k'
          \<and> map_of Rn k' = map_of R k'" for hn Rn
    using Cons.IH [OF that(1) Lres that(2) that(3) that(4) that(5) sub' sdist' S' np'] that(6) keep
    by simp
  consider (null) "hv = HNull"
    | (merge) s t where "hv = HObj s" "get_prop (own h result) k = HObj t"
    | (store) "hv \<noteq> HNull" "\<not> (\<exists>s t. hv = HObj s \<and> get_prop (own h result) k = HObj t)"
    by blast
  then show ?case
  proof cases
    case null
    with v have vn: "v = JNull" by simp
    let ?hn = "put_own h result (AList.delete k (own h result))"
    have same: "\<forall>a < length h. a \<noteq> result \<longrightarrow> ?hn ! a = h ! a" by simp
    have "props_of arrs depth ?hn (own h result) = Some R"
      by (rule json_of_stable(2) [OF lay Lres _ same up R]) simp
    then have Rn: "props_of arrs depth ?hn (own ?hn result) = Some (AList.delete k R)"
      using resh by (simp add: props_of_delete)
    have layn: "layered L ?hn"
      using up set_delete_subset [of k "own h result"]
      by (intro layered_update [OF lay Lres]) blast
    have "\<exists>h''. deepMergeH_loop depth ?hn result source (map fst sprops) = Some h''
        \<and> layered L h'' \<and> props_of arrs depth h'' (own h'' result)
            = Some (fst (deepMerge_loop (AList.delete k R) ObjectPrototype Srest'))"
      using layn resh agree Lres Rn knew pr
      by (intro step) (auto simp: get_prop_delete_other delete_conv')
    then show ?thesis
      using sk null by (simp add: e Srest vn)
  next
    case merge
    from v merge(1) obtain m S1 where m: "depth = Suc m" and s0: "s < length h0"
      and S1: "props_of arrs m h0 (own h0 s) = Some S1" and vS: "v = JObj S1"
      by (cases depth) (auto split: if_splits)
    from merge(2) rk have tk: "get_prop (own h0 target) k = HObj t" by simp
    from wf_heap_ref [OF wf _ tk] tgt L have t0: "t < length h0" by simp
    from props_of_lookup [OF T0, of k] get_prop_HObj_map_of [OF tk]
    have "map_of T0 k = json_of arrs depth h0 (HObj t)" by simp
    moreover have "json_of arrs depth h0 (HObj t) \<noteq> None"
      by (rule props_of_member [OF T0 get_prop_HObj_mem [OF tk]])
    ultimately obtain T1 where T1: "props_of arrs m h0 (own h0 t) = Some T1"
      and T0k: "map_of T0 k = Some (JObj T1)"
      using m t0 by (auto split: if_splits)
    from npv vS have npS1: "no_proto_key (JObj S1)" by simp
    from nested [OF m lay Llen agree _ _ T1 S1 npS1] t0 s0 L obtain h1 r1
      where run: "deepMergeH m h (HObj t) s = Some (h1, r1)" and lay1: "layered L h1"
        and res1: "props_of arrs m h1 (own h1 r1) = Some (deepMerge T1 S1)"
      by auto
    from deepMergeH_frame [OF run] deepMergeH_unfold [OF run]
    have n: "length h < length h1" "\<forall>a < length h. h1 ! a = h ! a" "r1 = length h"
      by simp_all
    let ?hn = "put_own h1 result (AList.update k (HObj r1) (own h1 result))"
    from n resh have res1h: "result < length h1" "h1 ! result = h ! result" by simp_all
    from res1h have own1: "own h1 result = own h result" by (simp add: own_def)
    from res1h pr have pr1: "snd (h1 ! result) = HObjectPrototype" by simp
    have hn: "set_resultH h1 result k (HObj r1) = ?hn"
      by (rule set_resultH_plain [OF res1h(1) pr1 kp])
    have R1: "props_of arrs depth h1 (own h result) = Some R"
      using json_of_extend_aux(2) [OF _ n(2) R] n(1) by simp
    have same: "\<forall>a < length h1. a \<noteq> result \<longrightarrow> ?hn ! a = h1 ! a" by simp
    have up1: "\<forall>p \<in> set (own h result). ref_up L result (snd p)" by (rule up)
    have Rn0: "props_of arrs depth ?hn (own h result) = Some R"
      by (rule json_of_stable(2) [OF lay1 Lres _ same up1 R1]) simp
    have "json_of arrs depth h1 (HObj r1) = Some (JObj (deepMerge T1 S1))"
      using res1 n m by simp
    then have jn: "json_of arrs depth ?hn (HObj r1) = Some (JObj (deepMerge T1 S1))"
      using n resh by (intro json_of_stable(1) [OF lay1 Lres _ same]) simp_all
    have Rn: "props_of arrs depth ?hn (own ?hn result)
        = Some (AList.update k (JObj (deepMerge T1 S1)) R)"
      using res1h own1 props_of_update [OF Rn0 jn] by simp
    have layn: "layered L ?hn"
    proof (rule layered_update [OF lay1 Lres], rule ballI)
      fix p assume "p \<in> set (AList.update k (HObj r1) (own h1 result))"
      with set_update_subset [of k "HObj r1" "own h result"] own1
      have "p = (k, HObj r1) \<or> p \<in> set (own h result)" by auto
      with up n resh show "ref_up L result (snd p)" by auto
    qed
    have agreen: "\<forall>a < L. ?hn ! a = h0 ! a"
      using agree n Llen Lres by auto
    have "\<exists>h''. deepMergeH_loop depth ?hn result source (map fst sprops) = Some h''
        \<and> layered L h'' \<and> props_of arrs depth h'' (own h'' result)
            = Some (fst (deepMerge_loop (AList.update k (JObj (deepMerge T1 S1)) R)
                      ObjectPrototype Srest'))"
      using layn res1h agreen Rn knew pr1 own1
      by (intro step) (auto simp: get_prop_update update_conv')
    moreover have "deepMergeH_loop depth h result source (k # map fst sprops)
        = deepMergeH_loop depth ?hn result source (map fst sprops)"
      using sk merge getr hn by (simp add: loop_merge m run)
    moreover from Rk T0k have "map_of R k = Some (JObj T1)" by simp
    ultimately show ?thesis
      by (simp add: e Srest vS deepMerge_loop_merge [OF kp]
          del: deepMergeH_loop.simps deepMerge_loop.simps)
  next
    case store
    let ?hn = "put_own h result (AList.update k hv (own h result))"
    have hn: "set_resultH h result k hv = ?hn"
      by (rule set_resultH_plain [OF resh pr kp])
    have same: "\<forall>a < length h. a \<noteq> result \<longrightarrow> ?hn ! a = h ! a" by simp
    have Rn0: "props_of arrs depth ?hn (own h result) = Some R"
      by (rule json_of_stable(2) [OF lay Lres _ same up R]) simp
    have jn: "json_of arrs depth ?hn hv = Some v"
      using agree L Llen Lres by (intro json_of_extend_aux(1) [OF _ _ v]) auto
    have Rn: "props_of arrs depth ?hn (own ?hn result) = Some (AList.update k v R)"
      using resh props_of_update [OF Rn0 jn] by simp
    from wf_heap_cell [OF wf _ mem] src L have "ref_ok L hv" by simp
    then have hvup: "ref_up L result hv" by (rule ref_ok_up)
    have layn: "layered L ?hn"
    proof (rule layered_update [OF lay Lres], rule ballI)
      fix p assume "p \<in> set (AList.update k hv (own h result))"
      with set_update_subset [of k hv "own h result"]
      have "p = (k, hv) \<or> p \<in> set (own h result)" by auto
      with up hvup show "ref_up L result (snd p)" by auto
    qed
    have agreen: "\<forall>a < L. ?hn ! a = h0 ! a"
      using agree Lres by auto
    have "\<exists>h''. deepMergeH_loop depth ?hn result source (map fst sprops) = Some h''
        \<and> layered L h'' \<and> props_of arrs depth h'' (own h'' result)
            = Some (fst (deepMerge_loop (AList.update k v R) ObjectPrototype Srest'))"
      using layn resh agreen Rn knew pr
      by (intro step) (auto simp: get_prop_update update_conv')
    moreover have "deepMergeH_loop depth h result source (k # map fst sprops)
        = deepMergeH_loop depth ?hn result source (map fst sprops)"
      using sk store getr rplain hn by (simp add: loop_store del: deepMergeH_loop.simps)
    moreover have "v \<noteq> JNull"
      using v store(1) by (auto dest: json_of_JNull)
    moreover have "\<not> (\<exists>S T. v = JObj S \<and> map_of R k = Some (JObj T))"
    proof
      assume "\<exists>S T. v = JObj S \<and> map_of R k = Some (JObj T)"
      then obtain S1 T1 where vS: "v = JObj S1" and RT: "map_of R k = Some (JObj T1)" by blast
      from v vS obtain s where "hv = HObj s" by (auto dest: json_of_JObj)
      moreover from RT Rk props_of_lookup [OF T0, of k]
      obtain tv where "map_of (own h0 target) k = Some tv" "json_of arrs depth h0 tv = Some (JObj T1)"
        by (auto split: option.splits)
      then obtain t where "get_prop (own h0 target) k = HObj t"
        by (auto simp: get_prop_def dest: json_of_JObj)
      ultimately show False using store(2) rk by simp
    qed
    ultimately show ?thesis
      by (simp add: e Srest deepMerge_loop_store [OF kp]
          del: deepMergeH_loop.simps deepMerge_loop.simps)
  qed
qed

lemma deepMergeH_computes_aux:
  "wf_heap h0 \<Longrightarrow> L = length h0 \<Longrightarrow> layered L h \<Longrightarrow> L \<le> length h \<Longrightarrow>
   \<forall>a < L. h ! a = h0 ! a \<Longrightarrow> t < L \<Longrightarrow> s < L \<Longrightarrow>
   props_of arrs n h0 (own h0 t) = Some T \<Longrightarrow> props_of arrs n h0 (own h0 s) = Some S \<Longrightarrow>
   no_proto_key (JObj S) \<Longrightarrow>
   \<exists>h' r. deepMergeH n h (HObj t) s = Some (h', r) \<and> layered L h'
     \<and> props_of arrs n h' (own h' r) = Some (deepMerge T S)"
proof (induction n arbitrary: h t s T S rule: less_induct)
  case (less n)
  note wf = less.prems(1) and L = less.prems(2) and lay = less.prems(3) and Llen = less.prems(4)
    and agree = less.prems(5) and t = less.prems(6) and s = less.prems(7)
    and T = less.prems(8) and S = less.prems(9) and np = less.prems(10)
  let ?h1 = "h @ [(own h t, HObjectPrototype)]"
  from agree t s have same: "own h t = own h0 t" "own h s = own h0 s" by (simp_all add: own_def)
  from t s Llen have th: "t < length h" "s < length h" by simp_all
  have cell: "\<forall>p \<in> set (own h t). ref_ok L (snd p)"
    using wf_heap_cell [OF wf, of t] t L same by auto
  have lay1: "layered L ?h1" by (rule layered_alloc [OF lay Llen cell])
  have agree1: "\<forall>a < L. ?h1 ! a = h0 ! a"
    using agree Llen by (simp add: nth_append)
  have T1: "props_of arrs n ?h1 (own ?h1 (length h)) = Some T"
    using json_of_extend_aux(2) [OF _ _ T, of ?h1] agree1 L Llen same by simp
  have dist: "distinct (map fst (own h0 s))"
    using wf_heap_distinct [OF wf] s L by simp
  have "\<exists>h''. deepMergeH_loop n ?h1 (length h) s (map fst (own h0 s)) = Some h'' \<and> layered L h''
      \<and> props_of arrs n h'' (own h'' (length h)) = Some (fst (deepMerge_loop T ObjectPrototype S))"
  proof (rule loop_computes [OF _ wf L s t dist T lay1 Llen _ agree1 _ T1 _ dist S np])
    fix m h1 t1 s1 T1 S1
    assume "n = Suc m" "layered L h1" "L \<le> length h1" "\<forall>a < L. h1 ! a = h0 ! a"
      "t1 < L" "s1 < L" "props_of arrs m h0 (own h0 t1) = Some T1"
      "props_of arrs m h0 (own h0 s1) = Some S1" "no_proto_key (JObj S1)"
    then show "\<exists>h' r. deepMergeH m h1 (HObj t1) s1 = Some (h', r) \<and> layered L h'
        \<and> props_of arrs m h' (own h' r) = Some (deepMerge T1 S1)"
      using less.IH [of m h1 t1 s1 T1 S1] wf L by simp
  next
    show "\<forall>k \<in> fst ` set (own h0 s). get_prop (own ?h1 (length h)) k = get_prop (own h0 t) k
        \<and> map_of T k = map_of T k"
      using same by simp
  qed simp_all
  then show ?case
    using th same by (auto simp: deepMergeH.simps spread_def deepMerge_def)
qed

lemma wf_heap_layered: "wf_heap h \<Longrightarrow> layered (length h) h"
  unfolding layered_def using wf_heap_cell [of h] by auto

lemma deepMergeH_computes_deepMerge:
  assumes wf: "wf_heap h"
    and T: "json_of arrs (Suc n) h (HObj target) = Some (JObj T)"
    and S: "json_of arrs (Suc n) h (HObj source) = Some (JObj S)"
    and np: "no_proto_key (JObj S)"
  shows "\<exists>h' r. deepMergeH n h (HObj target) source = Some (h', r)
     \<and> json_of arrs (Suc n) h' (HObj r) = Some (JObj (deepMerge T S))
     \<and> json_of arrs (Suc n) h' (HObj target) = Some (JObj T)
     \<and> json_of arrs (Suc n) h' (HObj source) = Some (JObj S)"
proof -
  from T have t: "target < length h" and T': "props_of arrs n h (own h target) = Some T"
    by (auto split: if_splits)
  from S have s: "source < length h" and S': "props_of arrs n h (own h source) = Some S"
    by (auto split: if_splits)
  from deepMergeH_computes_aux [OF wf refl wf_heap_layered [OF wf] _ _ t s T' S' np]
  obtain h' r where run: "deepMergeH n h (HObj target) source = Some (h', r)"
    and res: "props_of arrs n h' (own h' r) = Some (deepMerge T S)"
    by auto
  from deepMergeH_frame [OF run] deepMergeH_unfold [OF run]
  have fr: "length h < length h'" "\<forall>a < length h. h' ! a = h ! a" "r = length h"
    by simp_all
  from fr res have "json_of arrs (Suc n) h' (HObj r) = Some (JObj (deepMerge T S))" by simp
  moreover from json_of_extend_aux(1) [OF _ fr(2) T] fr(1)
  have "json_of arrs (Suc n) h' (HObj target) = Some (JObj T)" by simp
  moreover from json_of_extend_aux(1) [OF _ fr(2) S] fr(1)
  have "json_of arrs (Suc n) h' (HObj source) = Some (JObj S)" by simp
  ultimately show ?thesis using run by blast
qed

lemma ref_ok_mono: "ref_ok n v \<Longrightarrow> n \<le> m \<Longrightarrow> ref_ok m v"
  by (cases v) simp_all

lemma wf_heapI:
  assumes d: "\<And>a. a < length h \<Longrightarrow> distinct (map fst (own h a))"
    and r: "\<And>a k v. a < length h \<Longrightarrow> (k, v) \<in> set (own h a) \<Longrightarrow> ref_ok (length h) v"
  shows "wf_heap h"
  unfolding wf_heap_def list_all_iff
proof (rule ballI)
  fix c assume "c \<in> set h"
  then obtain a where a: "a < length h" "c = h ! a" by (auto simp: in_set_conv_nth)
  from d [OF a(1)] a(2) have "distinct (map fst (fst c))" by (simp add: own_def)
  moreover have "\<forall>x \<in> set (fst c). case x of (k, v) \<Rightarrow> ref_ok (length h) v"
  proof
    fix x assume x: "x \<in> set (fst c)"
    obtain k v where kv: "x = (k, v)" by (cases x)
    from r [OF a(1), of k v] x a(2) kv show "case x of (k, v) \<Rightarrow> ref_ok (length h) v"
      by (simp add: own_def)
  qed
  ultimately show "distinct (map fst (fst c))
      \<and> (\<forall>x \<in> set (fst c). case x of (k, v) \<Rightarrow> ref_ok (length h) v)" ..
qed

lemma wf_heap_put_own:
  assumes wf: "wf_heap h" and d: "distinct (map fst ob)"
    and r: "\<And>k v. (k, v) \<in> set ob \<Longrightarrow> ref_ok (length h) v"
  shows "wf_heap (put_own h a ob)"
proof (rule wf_heapI)
  fix b assume b: "b < length (put_own h a ob)"
  show "distinct (map fst (own (put_own h a ob) b))"
  proof (cases "b = a")
    case True
    with b d show ?thesis by simp
  next
    case False
    with b wf_heap_distinct [OF wf, of b] show ?thesis by simp
  qed
next
  fix b k v assume b: "b < length (put_own h a ob)" and m: "(k, v) \<in> set (own (put_own h a ob) b)"
  show "ref_ok (length (put_own h a ob)) v"
  proof (cases "b = a")
    case True
    with b m r [of k v] show ?thesis by simp
  next
    case False
    with b m wf_heap_cell [OF wf, of b k v] show ?thesis by simp
  qed
qed

lemma wf_heap_put_proto: "wf_heap h \<Longrightarrow> wf_heap (put_proto h a p)"
  by (rule wf_heapI) (auto dest: wf_heap_distinct wf_heap_cell)

lemma wf_heap_delete:
  assumes wf: "wf_heap h" and a: "a < length h"
  shows "wf_heap (put_own h a (AList.delete k (own h a)))"
proof (rule wf_heap_put_own [OF wf])
  from wf_heap_distinct [OF wf a] show "distinct (map fst (AList.delete k (own h a)))"
    by (simp add: distinct_delete)
  fix k' v assume "(k', v) \<in> set (AList.delete k (own h a))"
  with set_delete_subset [of k "own h a"] have "(k', v) \<in> set (own h a)" by blast
  from wf_heap_cell [OF wf a this] show "ref_ok (length h) v" .
qed

lemma wf_heap_update:
  assumes wf: "wf_heap h" and a: "a < length h" and v: "ref_ok (length h) v"
  shows "wf_heap (put_own h a (AList.update k v (own h a)))"
proof (rule wf_heap_put_own [OF wf])
  from wf_heap_distinct [OF wf a] show "distinct (map fst (AList.update k v (own h a)))"
    by (simp add: distinct_update)
  fix k' v' assume "(k', v') \<in> set (AList.update k v (own h a))"
  with set_update_subset [of k v "own h a"]
  have "(k', v') = (k, v) \<or> (k', v') \<in> set (own h a)" by blast
  with v wf_heap_cell [OF wf a] show "ref_ok (length h) v'" by auto
qed

lemma wf_heap_set_resultH:
  "wf_heap h \<Longrightarrow> result < length h \<Longrightarrow> ref_ok (length h) v \<Longrightarrow>
   wf_heap (set_resultH h result key v)"
  by (simp add: set_resultH_def wf_heap_update wf_heap_put_proto split: found.splits hval.splits)

lemma wf_heap_alloc:
  assumes wf: "wf_heap h" and d: "distinct (map fst ob)"
    and r: "\<And>k v. (k, v) \<in> set ob \<Longrightarrow> ref_ok (length h) v"
  shows "wf_heap (h @ [(ob, pr)])"
proof (rule wf_heapI)
  fix b assume b: "b < length (h @ [(ob, pr)])"
  show "distinct (map fst (own (h @ [(ob, pr)]) b))"
  proof (cases "b < length h")
    case True
    with wf_heap_distinct [OF wf, of b] show ?thesis by simp
  next
    case False
    with b have "b = length h" by simp
    with d show ?thesis by simp
  qed
next
  fix b k v assume b: "b < length (h @ [(ob, pr)])" and m: "(k, v) \<in> set (own (h @ [(ob, pr)]) b)"
  have "ref_ok (length h) v"
  proof (cases "b < length h")
    case True
    with m wf_heap_cell [OF wf, of b k v] show ?thesis by simp
  next
    case False
    with b have "b = length h" by simp
    with m r [of k v] show ?thesis by simp
  qed
  then show "ref_ok (length (h @ [(ob, pr)])) v" by (rule ref_ok_mono) simp
qed

text \<open>The prototype of \<open>result\<close> after an assignment: the old one, or the value assigned.\<close>

lemma snd_set_resultH:
  "snd (set_resultH h result key v ! result) = snd (h ! result)
   \<or> snd (set_resultH h result key v ! result) = v"
  by (cases "result < length h")
    (auto simp: set_resultH_def put_proto_def put_own_def list_update_beyond
      split: found.splits hval.splits)

text \<open>A value that the lookup finds is an own property of an object of the store.\<close>

lemma lookup_Data:
  "lookup n h x key = Data v \<Longrightarrow> \<exists>b < length h. (key, v) \<in> set (own h b)"
proof (induction n h x key rule: lookup.induct)
  case (1 n h key)
  then show ?case by (simp split: if_splits)
next
  case (2 n h a key)
  then show ?case by (auto split: if_splits option.splits dest: map_of_SomeD)
next
  case (3 n h a key)
  then show ?case by (auto split: if_splits option.splits dest: map_of_SomeD)
qed simp_all

lemma get_resultH_ref_ok:
  assumes wf: "wf_heap h" and pr: "ref_ok (length h) (snd (h ! result))"
  shows "ref_ok (length h) (get_resultH h result key)"
proof (cases "lookup (length h) h (HObj result) key")
  case (Data v)
  from lookup_Data [OF Data] obtain b where "b < length h" "(key, v) \<in> set (own h b)" by blast
  with wf have "ref_ok (length h) v" by (rule wf_heap_cell)
  with Data show ?thesis by (simp add: get_resultH_def)
next
  case Accessor
  with pr show ?thesis by (simp add: get_resultH_def)
next
  case Absent
  then show ?thesis by (simp add: get_resultH_def)
qed

lemma spread_plain:
  "plain_objectH v \<Longrightarrow> ref_ok (length h) v \<Longrightarrow> spread h v \<noteq> None"
  by (cases v) (simp_all add: spread_def)

text \<open>
  The call returns: on a store as the runtime keeps it, with a source that holds a JSON
  document nested no deeper than the call stack allows, whatever the keys of the source
  are.
\<close>

lemma loop_returns:
  assumes nested: "\<And>m h t s. depth = Suc m \<Longrightarrow> wf_heap h \<Longrightarrow> L \<le> length h \<Longrightarrow>
      \<forall>a < L. h ! a = h0 ! a \<Longrightarrow> spread h t \<noteq> None \<Longrightarrow>
      json_of arrs (Suc m) h0 (HObj s) \<noteq> None \<Longrightarrow>
      \<exists>h' r. deepMergeH m h t s = Some (h', r) \<and> wf_heap h'"
    and wf0: "wf_heap h0" and L: "L = length h0" and src: "source < L"
    and S: "props_of arrs depth h0 (own h0 source) = Some S"
  shows "wf_heap h \<Longrightarrow> L \<le> result \<Longrightarrow> result < length h \<Longrightarrow> \<forall>a < L. h ! a = h0 ! a \<Longrightarrow>
     ref_ok (length h) (snd (h ! result)) \<Longrightarrow>
     \<exists>h''. deepMergeH_loop depth h result source keys = Some h'' \<and> wf_heap h''"
proof (induction keys arbitrary: h)
  case Nil
  then show ?case by simp
next
  case (Cons key keys)
  note wf = Cons.prems(1) and Lres = Cons.prems(2) and resh = Cons.prems(3)
    and agree = Cons.prems(4) and pr = Cons.prems(5)
  from agree src have srcsame: "own h source = own h0 source" by (simp add: own_def)
  from Lres resh have Llen: "L \<le> length h" by simp
  have step: "\<exists>h''. deepMergeH_loop depth hn result source keys = Some h'' \<and> wf_heap h''"
    if "wf_heap hn" "result < length hn" "\<forall>a < L. hn ! a = h0 ! a"
      "ref_ok (length hn) (snd (hn ! result))" for hn
    using Cons.IH [OF that(1) Lres that(2) that(3) that(4)] .
  consider (null) "get_prop (own h source) key = HNull"
    | (merge) s where "get_prop (own h source) key = HObj s"
        "plain_objectH (get_resultH h result key)"
    | (store) "get_prop (own h source) key \<noteq> HNull"
        "\<not> (\<exists>s. get_prop (own h source) key = HObj s \<and> plain_objectH (get_resultH h result key))"
    by blast
  then show ?case
  proof cases
    case null
    let ?hn = "put_own h result (AList.delete key (own h result))"
    have "\<exists>h''. deepMergeH_loop depth ?hn result source keys = Some h'' \<and> wf_heap h''"
      using wf_heap_delete [OF wf resh] resh agree Lres pr by (intro step) auto
    then show ?thesis unfolding loop_null [OF null] .
  next
    case merge
    from merge(1) srcsame have mem: "(key, HObj s) \<in> set (own h0 source)"
      by (auto dest: get_prop_HObj_mem)
    from props_of_member [OF S mem] obtain m where m: "depth = Suc m"
      and sj: "json_of arrs (Suc m) h0 (HObj s) \<noteq> None"
      by (cases depth) auto
    from get_resultH_ref_ok [OF wf pr] merge(2)
    have sp: "spread h (get_resultH h result key) \<noteq> None" by (rule spread_plain [rotated])
    from nested [OF m wf Llen agree sp sj] obtain h1 r1
      where run: "deepMergeH m h (get_resultH h result key) s = Some (h1, r1)"
        and wf1: "wf_heap h1"
      by blast
    from deepMergeH_frame [OF run] deepMergeH_unfold [OF run]
    have n: "length h < length h1" "\<forall>a < length h. h1 ! a = h ! a" "r1 = length h"
      by simp_all
    let ?hn = "set_resultH h1 result key (HObj r1)"
    from n resh have res1: "result < length h1" and same1: "h1 ! result = h ! result" by simp_all
    from n have r1ok: "ref_ok (length h1) (HObj r1)" by simp
    have wfn: "wf_heap ?hn" by (rule wf_heap_set_resultH [OF wf1 res1 r1ok])
    have agreen: "\<forall>a < L. ?hn ! a = h0 ! a"
      using agree n Llen Lres by auto
    have prn: "ref_ok (length ?hn) (snd (?hn ! result))"
      using snd_set_resultH [of h1 result key "HObj r1"] same1 pr n r1ok
      by (auto intro: ref_ok_mono)
    have "\<exists>h''. deepMergeH_loop depth ?hn result source keys = Some h'' \<and> wf_heap h''"
      using wfn res1 agreen prn by (intro step) simp_all
    then show ?thesis
      by (simp add: loop_merge [OF merge] m run del: deepMergeH_loop.simps)
  next
    case store
    let ?v = "get_prop (own h source) key"
    let ?hn = "set_resultH h result key ?v"
    have vok: "ref_ok (length h) ?v"
    proof (cases "map_of (own h0 source) key")
      case None
      with srcsame show ?thesis by (simp add: get_prop_def)
    next
      case (Some x)
      from wf_heap_cell [OF wf0 _ map_of_SomeD [OF Some]] src L
      have "ref_ok L x" by simp
      with Some srcsame Llen show ?thesis by (auto simp: get_prop_def intro: ref_ok_mono)
    qed
    have wfn: "wf_heap ?hn" by (rule wf_heap_set_resultH [OF wf resh vok])
    have agreen: "\<forall>a < L. ?hn ! a = h0 ! a"
      using agree Lres by auto
    have prn: "ref_ok (length ?hn) (snd (?hn ! result))"
      using snd_set_resultH [of h result key ?v] pr vok by auto
    have "\<exists>h''. deepMergeH_loop depth ?hn result source keys = Some h'' \<and> wf_heap h''"
      using wfn resh agreen prn by (intro step) simp_all
    then show ?thesis unfolding loop_store [OF store] .
  qed
qed

lemma deepMergeH_returns_aux:
  "wf_heap h0 \<Longrightarrow> L = length h0 \<Longrightarrow> wf_heap h \<Longrightarrow> L \<le> length h \<Longrightarrow>
   \<forall>a < L. h ! a = h0 ! a \<Longrightarrow> spread h t \<noteq> None \<Longrightarrow>
   json_of arrs (Suc n) h0 (HObj s) \<noteq> None \<Longrightarrow>
   \<exists>h' r. deepMergeH n h t s = Some (h', r) \<and> wf_heap h'"
proof (induction n arbitrary: h t s rule: less_induct)
  case (less n)
  note wf0 = less.prems(1) and L = less.prems(2) and wf = less.prems(3) and Llen = less.prems(4)
    and agree = less.prems(5) and sp = less.prems(6) and sj = less.prems(7)
  from sj obtain S where s: "s < L" and S: "props_of arrs n h0 (own h0 s) = Some S"
    by (auto simp: L split: if_splits)
  from sp obtain copy where copy: "spread h t = Some copy" by blast
  have cd: "distinct (map fst copy)"
    using copy wf by (auto simp: spread_def split: hval.splits if_splits dest: wf_heap_distinct)
  have cr: "ref_ok (length h) v" if "(k, v) \<in> set copy" for k v
    using copy wf that by (auto simp: spread_def split: hval.splits if_splits dest: wf_heap_cell)
  let ?h1 = "h @ [(copy, HObjectPrototype)]"
  have wf1: "wf_heap ?h1" by (rule wf_heap_alloc [OF wf cd cr])
  have agree1: "\<forall>a < L. ?h1 ! a = h0 ! a"
    using agree Llen by (simp add: nth_append)
  have "\<exists>h''. deepMergeH_loop n ?h1 (length h) s (map fst (own h s)) = Some h'' \<and> wf_heap h''"
  proof (rule loop_returns [OF _ wf0 L s S wf1 Llen _ agree1])
    fix m h1 t1 s1
    assume "n = Suc m" "wf_heap h1" "L \<le> length h1" "\<forall>a < L. h1 ! a = h0 ! a"
      "spread h1 t1 \<noteq> None" "json_of arrs (Suc m) h0 (HObj s1) \<noteq> None"
    then show "\<exists>h' r. deepMergeH m h1 t1 s1 = Some (h', r) \<and> wf_heap h'"
      using less.IH [of m h1 t1 s1] wf0 L by simp
  qed simp_all
  with copy s Llen show ?case by (auto simp: deepMergeH.simps)
qed

lemma deepMergeH_returns:
  assumes wf: "wf_heap h" and t: "target < length h"
    and S: "json_of arrs (Suc n) h (HObj source) \<noteq> None"
  shows "\<exists>h' r. deepMergeH n h (HObj target) source = Some (h', r)"
proof -
  from t have "spread h (HObj target) \<noteq> None" by (simp add: spread_def)
  from deepMergeH_returns_aux [OF wf refl wf _ _ this S] show ?thesis by auto
qed

text \<open>
  The two models agree at the key \<^verbatim>\<open>__proto__\<close> as well: on the store, the source
  \<open>{"__proto__": {"a": {"x": 1}}, "a": {"y": 2}}\<close> leaves a result whose own properties
  are the document that the first model computes, and no object that existed before the
  call has changed.
\<close>

lemma store_P_run:
  "deepMergeH (Suc 0) store_P (HObj 0) (Suc 0) = Some (store_P_merged, 5)
   \<and> json_of (\<lambda>a. []) 3 store_P (HObj (Suc 0))
       = Some (JObj [(''__proto__'', JObj [(''a'', JObj [(''x'', JNum 1)])]),
                     (''a'', JObj [(''y'', JNum 2)])])
   \<and> json_of (\<lambda>a. []) 3 store_P_merged (HObj 5)
       = Some (JObj (deepMerge [] [(''__proto__'', JObj [(''a'', JObj [(''x'', JNum 1)])]),
                                   (''a'', JObj [(''y'', JNum 2)])]))
   \<and> take 5 store_P_merged = store_P"
  by (simp add: deepMergeH.simps store_P_merged_def store_P_def spread_def get_prop_def own_def
      get_resultH_def set_resultH_def put_own_def put_proto_def numeral_3_eq_3
      deepMerge_def plain_object_def set_result_def get_result_def)

text \<open>
  Claim C7 says that the returned object is a fresh object at every path the merge touched.
  At a key where the source holds an object and the target holds none, the function stores
  the object of the source itself: merging \<open>{k: {x: 1}}\<close> into \<open>{}\<close> returns a new object
  whose property \<open>k\<close> is the object that the source has at \<open>k\<close>, at the address it had
  before the call.
\<close>

theorem deepMergeH_shares_source_object:
  "deepMergeH 0 store_K (HObj 0) 1 = Some (store_K_merged, 3)
   \<and> length store_K = 3
   \<and> objects_along store_K 1 [''k''] = Some [1, 2]
   \<and> objects_along store_K_merged 3 [''k''] = Some [3, 2]"
  by (simp add: deepMergeH.simps store_K_merged_def store_K_def spread_def get_prop_def own_def
      get_resultH_def set_resultH_def put_own_def)

text \<open>
  Claim C7, amended. \<open>deepMerge(target, source)\<close> does not mutate \<open>target\<close> at any depth,
  and what it returns is a new object at the root and at every path on which both the
  target and the source hold a plain object; at the other keys of the source it holds the
  values of the source themselves. On a store as the runtime keeps it, in three parts.
  First, the call returns whenever the source holds a JSON document and the call stack
  allows as many nested calls as that document nests. Second, when target and source hold
  the JSON documents \<open>T\<close> and \<open>S\<close> and no object of \<open>S\<close> has the key \<^verbatim>\<open>__proto__\<close>, the
  returned object holds the document \<open>deepMerge T S\<close> of the first model, and the target
  still holds \<open>T\<close>. Third, whenever the call returns \<open>r\<close> and the store
  \<open>h'\<close>: every object that existed before the call (the target and all that it reaches)
  has exactly its old properties and prototype; \<open>r\<close> is an address that did not exist
  before; along every path on which both the target and the source hold plain objects (the
  paths where the function merges), every object of the result was allocated during the
  call; for a source without the key \<^verbatim>\<open>__proto__\<close>, at any other key of the source the
  result holds the source's own value, or nothing when that value is null; and at a key
  that the source does not have, the result holds the very value the target holds there
  (an unrelated branch is shared).
\<close>

theorem deepMergeH_leaves_target_untouched:
  assumes "wf_heap h"
  shows "(target < length h \<and> json_of arrs (Suc depth) h (HObj source) \<noteq> None \<longrightarrow>
            (\<exists>h1 r1. deepMergeH depth h (HObj target) source = Some (h1, r1)))
     \<and> (json_of arrs (Suc depth) h (HObj target) = Some (JObj T) \<and>
          json_of arrs (Suc depth) h (HObj source) = Some (JObj S) \<and> no_proto_key (JObj S) \<longrightarrow>
            (\<exists>h1 r1. deepMergeH depth h (HObj target) source = Some (h1, r1)
               \<and> json_of arrs (Suc depth) h1 (HObj r1) = Some (JObj (deepMerge T S))
               \<and> json_of arrs (Suc depth) h1 (HObj target) = Some (JObj T)))
     \<and> (deepMergeH depth h (HObj target) source = Some (h', r) \<longrightarrow>
          length h < length h' \<and> (\<forall>a < length h. h' ! a = h ! a)
        \<and> r = length h
        \<and> (\<forall>path. objects_along h target path \<noteq> None \<and> objects_along h source path \<noteq> None \<longrightarrow>
             (\<exists>as. objects_along h' r path = Some as \<and> (\<forall>a \<in> set as. length h \<le> a)))
        \<and> (''__proto__'' \<notin> fst ` set (own h source) \<longrightarrow>
             (\<forall>key. key \<in> fst ` set (own h source) \<and>
                    \<not> (\<exists>s. get_prop (own h source) key = HObj s
                          \<and> plain_objectH (get_prop (own h target) key)) \<longrightarrow>
                  get_prop (own h' r) key
                    = (if get_prop (own h source) key = HNull then HUndefined
                       else get_prop (own h source) key)))
        \<and> (\<forall>key. key \<notin> fst ` set (own h source) \<longrightarrow>
                get_prop (own h' r) key = get_prop (own h target) key))"
proof (intro conjI impI)
  assume "target < length h \<and> json_of arrs (Suc depth) h (HObj source) \<noteq> None"
  then show "\<exists>h1 r1. deepMergeH depth h (HObj target) source = Some (h1, r1)"
    using deepMergeH_returns [OF assms, of target arrs depth source] by blast
next
  assume "json_of arrs (Suc depth) h (HObj target) = Some (JObj T) \<and>
      json_of arrs (Suc depth) h (HObj source) = Some (JObj S) \<and> no_proto_key (JObj S)"
  then show "\<exists>h1 r1. deepMergeH depth h (HObj target) source = Some (h1, r1)
      \<and> json_of arrs (Suc depth) h1 (HObj r1) = Some (JObj (deepMerge T S))
      \<and> json_of arrs (Suc depth) h1 (HObj target) = Some (JObj T)"
    using deepMergeH_computes_deepMerge [OF assms, of arrs depth target T source S] by blast
next
  assume run: "deepMergeH depth h (HObj target) source = Some (h', r)"
  from deepMergeH_frame [OF run]
  show "length h < length h'" and "\<forall>a < length h. h' ! a = h ! a" by simp_all
  from deepMergeH_unfold [OF run] show "r = length h" by simp
  show "\<forall>path. objects_along h target path \<noteq> None \<and> objects_along h source path \<noteq> None \<longrightarrow>
      (\<exists>as. objects_along h' r path = Some as \<and> (\<forall>a \<in> set as. length h \<le> a))"
    using deepMergeH_fresh [OF run, of h] assms by simp
  show "\<forall>key. key \<notin> fst ` set (own h source) \<longrightarrow> get_prop (own h' r) key = get_prop (own h target) key"
  proof (intro allI impI)
    fix key
    assume "key \<notin> fst ` set (own h source)"
    then have notin: "key \<notin> set (map fst (own h source))" by simp
    from deepMergeH_unfold_HObj [OF run]
    have r: "r = length h"
      and loop: "deepMergeH_loop depth (h @ [(own h target, HObjectPrototype)]) (length h) source
          (map fst (own h source)) = Some h'"
      by simp_all
    from loop_keeps_other_keys [OF loop notin] r
    show "get_prop (own h' r) key = get_prop (own h target) key" by simp
  qed
next
  assume run: "deepMergeH depth h (HObj target) source = Some (h', r)"
    and nop: "''__proto__'' \<notin> fst ` set (own h source)"
  show "\<forall>key. key \<in> fst ` set (own h source) \<and>
        \<not> (\<exists>s. get_prop (own h source) key = HObj s
              \<and> plain_objectH (get_prop (own h target) key)) \<longrightarrow>
      get_prop (own h' r) key
        = (if get_prop (own h source) key = HNull then HUndefined else get_prop (own h source) key)"
    using deepMergeH_verbatim [OF assms run _ nop] by blast
qed

lemma store_AB_run:
  "deepMergeH (Suc 0) store_AB (HObj 0) (Suc 0) = Some (store_AB_merged, 5)"
  by (simp add: deepMergeH.simps store_AB_merged_def store_AB_def spread_def get_prop_def own_def
      get_resultH_def set_resultH_def put_own_def)

theorem deepMergeH_leaves_target_untouched_witness:
  "wf_heap store_AB
   \<and> json_of (\<lambda>a. []) (Suc (Suc 0)) store_AB (HObj 0)
       = Some (JObj [(''a'', JObj [(''b'', JNum 1)]), (''z'', JObj [(''q'', JBool True)])])
   \<and> json_of (\<lambda>a. []) (Suc (Suc 0)) store_AB (HObj (Suc 0))
       = Some (JObj [(''a'', JObj [(''c'', JNum 2)]), (''n'', JNull)])
   \<and> no_proto_key (JObj [(''a'', JObj [(''c'', JNum 2)]), (''n'', JNull)])
   \<and> deepMergeH (Suc 0) store_AB (HObj 0) (Suc 0) = Some (store_AB_merged, 5)
   \<and> json_of (\<lambda>a. []) (Suc (Suc 0)) store_AB_merged (HObj 5)
       = Some (JObj [(''a'', JObj [(''b'', JNum 1), (''c'', JNum 2)]),
                     (''z'', JObj [(''q'', JBool True)])])
   \<and> take 5 store_AB_merged = store_AB
   \<and> objects_along store_AB_merged 5 [''a''] = Some [5, 6]
   \<and> get_prop (own store_AB_merged 5) ''n'' = HUndefined
   \<and> get_prop (own store_AB_merged 5) ''z'' = get_prop (own store_AB 0) ''z''"
proof -
  have wf: "wf_heap store_AB" by (simp add: wf_heap_def store_AB_def)
  have T: "json_of (\<lambda>a. []) (Suc (Suc 0)) store_AB (HObj 0)
       = Some (JObj [(''a'', JObj [(''b'', JNum 1)]), (''z'', JObj [(''q'', JBool True)])])"
    by (simp add: store_AB_def own_def)
  have S: "json_of (\<lambda>a. []) (Suc (Suc 0)) store_AB (HObj (Suc 0))
       = Some (JObj [(''a'', JObj [(''c'', JNum 2)]), (''n'', JNull)])"
    by (simp add: store_AB_def own_def)
  have np: "no_proto_key (JObj [(''a'', JObj [(''c'', JNum 2)]), (''n'', JNull)])"
    by simp
  from deepMergeH_leaves_target_untouched [OF wf, where arrs = "\<lambda>a. []" and depth = "Suc 0"
      and target = 0 and source = "Suc 0"
      and T = "[(''a'', JObj [(''b'', JNum 1)]), (''z'', JObj [(''q'', JBool True)])]"
      and S = "[(''a'', JObj [(''c'', JNum 2)]), (''n'', JNull)]"
      and h' = store_AB_merged and r = 5] T S np
  obtain h1 r1 where run: "deepMergeH (Suc 0) store_AB (HObj 0) (Suc 0) = Some (h1, r1)"
    and val: "json_of (\<lambda>a. []) (Suc (Suc 0)) h1 (HObj r1)
      = Some (JObj (deepMerge [(''a'', JObj [(''b'', JNum 1)]), (''z'', JObj [(''q'', JBool True)])]
                     [(''a'', JObj [(''c'', JNum 2)]), (''n'', JNull)]))"
    by blast
  from run have "h1 = store_AB_merged" "r1 = 5"
    unfolding store_AB_run by simp_all
  with val have merged: "json_of (\<lambda>a. []) (Suc (Suc 0)) store_AB_merged (HObj 5)
       = Some (JObj [(''a'', JObj [(''b'', JNum 1), (''c'', JNum 2)]),
                     (''z'', JObj [(''q'', JBool True)])])"
    by (simp add: deepMerge_own_Cons)
  have frame: "take 5 store_AB_merged = store_AB"
    by (simp add: store_AB_merged_def store_AB_def)
  have along: "objects_along store_AB_merged 5 [''a''] = Some [5, 6]"
    by (simp add: store_AB_merged_def store_AB_def get_prop_def own_def)
  have null: "get_prop (own store_AB_merged 5) ''n'' = HUndefined"
    by (simp add: store_AB_merged_def store_AB_def get_prop_def own_def)
  have shared: "get_prop (own store_AB_merged 5) ''z'' = get_prop (own store_AB 0) ''z''"
    by (simp add: store_AB_merged_def store_AB_def get_prop_def own_def)
  from wf T S np store_AB_run merged frame along null shared show ?thesis by (intro conjI)
qed

section \<open>Relay: results\<close>

lemma presence_onMessage:
  "presence (fst (onMessage st conns sender message)) =
     (case message of
        Msg (UpdatePresence p) \<Rightarrow>
          (if map_of (peers st) sender = None then presence st
           else AList.update sender (deepMerge (presence_or_empty (presence st) sender) p) (presence st))
      | _ \<Rightarrow> presence st)"
  by (simp add: onMessage_def Let_def split: frame.splits option.splits ClientToServerMessage.splits)

lemma peers_onMessage: "peers (fst (onMessage st conns sender message)) = peers st"
  by (simp add: onMessage_def Let_def split: frame.splits option.splits ClientToServerMessage.splits)

lemma presence_or_empty_update:
  "presence_or_empty (AList.update c p pres) c = p"
  by (simp add: presence_or_empty_def update_conv')

text \<open>
  Claim C9. A frame whose sender has no entry in the peer registry changes no field of the
  Relay and sends nothing, whatever the frame is; a close of a connection that has no entry
  changes nothing and broadcasts nothing.
\<close>

theorem unregistered_sender_ignored:
  "map_of (peers st) c = None \<Longrightarrow>
     onMessage st conns c message = (st, []) \<and> onClose st conns c = (st, [])"
  by (simp add: onMessage_def onClose_def split: frame.splits)

theorem unregistered_sender_ignored_witness:
  "map_of (peers room_AB) ''C'' = None
   \<and> onMessage room_AB [''A'', ''B'', ''C''] ''C'' (Msg (UpdateRoomState [(''x'', JNum 1)]))
       = (room_AB, [])
   \<and> onClose room_AB [''A'', ''B''] ''C'' = (room_AB, [])"
  using unregistered_sender_ignored [of room_AB "''C''" "[''A'', ''B'', ''C'']"
      "Msg (UpdateRoomState [(''x'', JNum 1)])"]
    unregistered_sender_ignored [of room_AB "''C''" "[''A'', ''B'']"]
  by (simp add: room_AB_def)



lemma process_presence_updates_fold:
  "map_of (peers st) c \<noteq> None \<Longrightarrow>
   presence_or_empty (presence (process_presence_updates st c ms)) c
     = foldl deepMerge (presence_or_empty (presence st) c) (map snd ms)"
proof (induction ms arbitrary: st)
  case Nil
  then show ?case by (simp add: process_presence_updates_def)
next
  case (Cons m ms)
  obtain conns p where m: "m = (conns, p)" by (cases m)
  let ?st1 = "fst (onMessage st conns c (Msg (UpdatePresence p)))"
  have reg: "map_of (peers ?st1) c \<noteq> None"
    using Cons.prems by (simp add: peers_onMessage)
  have step: "presence_or_empty (presence ?st1) c = deepMerge (presence_or_empty (presence st) c) p"
    using Cons.prems by (simp only: presence_onMessage frame.case ClientToServerMessage.case if_False presence_or_empty_update)
  have "process_presence_updates st c (m # ms) = process_presence_updates ?st1 c ms"
    by (simp add: process_presence_updates_def m)
  then show ?case
    using Cons.IH [OF reg] step by (simp add: m)
qed

text \<open>
  Claim C5. For a registered connection \<open>c\<close> and any run of \<^verbatim>\<open>update-presence\<close> frames
  from \<open>c\<close>, handled in arrival order, the presence entry of \<open>c\<close> afterwards is the left
  fold of \<open>deepMerge\<close> over the payloads, starting from the entry before the run (the empty
  mapping if there was none). The order matters: \<open>{x:1}\<close> then \<open>{x:2}\<close> and \<open>{x:2}\<close> then
  \<open>{x:1}\<close> leave different entries.
\<close>

theorem presence_is_left_fold:
  "(map_of (peers st) c \<noteq> None \<longrightarrow>
      presence_or_empty (presence (process_presence_updates st c ms)) c
        = foldl deepMerge (presence_or_empty (presence st) c) (map snd ms))
   \<and> presence_or_empty (presence (process_presence_updates room_AB ''B''
         [([''A'', ''B''], [(''x'', JNum 1)]), ([''A'', ''B''], [(''x'', JNum 2)])])) ''B''
      \<noteq> presence_or_empty (presence (process_presence_updates room_AB ''B''
         [([''A'', ''B''], [(''x'', JNum 2)]), ([''A'', ''B''], [(''x'', JNum 1)])])) ''B''"
proof (intro conjI impI)
  assume "map_of (peers st) c \<noteq> None"
  then show "presence_or_empty (presence (process_presence_updates st c ms)) c
        = foldl deepMerge (presence_or_empty (presence st) c) (map snd ms)"
    by (rule process_presence_updates_fold)
next
  have reg: "map_of (peers room_AB) ''B'' \<noteq> None" by (simp add: room_AB_def)
  show "presence_or_empty (presence (process_presence_updates room_AB ''B''
         [([''A'', ''B''], [(''x'', JNum 1)]), ([''A'', ''B''], [(''x'', JNum 2)])])) ''B''
      \<noteq> presence_or_empty (presence (process_presence_updates room_AB ''B''
         [([''A'', ''B''], [(''x'', JNum 2)]), ([''A'', ''B''], [(''x'', JNum 1)])])) ''B''"
    by (simp add: process_presence_updates_fold [OF reg]) (simp add: room_AB_def presence_or_empty_def deepMerge_own_Cons)
qed

theorem presence_is_left_fold_witness:
  "map_of (peers room_AB) ''A'' \<noteq> None
   \<and> presence_or_empty (presence (process_presence_updates room_AB ''A''
         [([''A'', ''B''], [(''y'', JObj [(''z'', JNum 2)])]), ([''A''], [(''x'', JNull)])])) ''A''
      = [(''y'', JObj [(''z'', JNum 2)])]"
  using presence_is_left_fold [of room_AB "''A''"
      "[([''A'', ''B''], [(''y'', JObj [(''z'', JNum 2)])]), ([''A''], [(''x'', JNull)])]"]
  by (simp add: room_AB_def presence_or_empty_def deepMerge_own_Cons)

text \<open>
  Claim C6. For a \<^verbatim>\<open>broadcast-event\<close> frame from a registered sender: if the event's
  \<open>echo\<close> field is \<open>false\<close>, the \<^verbatim>\<open>event\<close> frame goes to every current connection except
  the sender, so the sender does not get its own event; if \<open>echo\<close> is \<open>true\<close> or absent, it
  goes to every current connection, the sender included.
\<close>

theorem broadcast_event_echo:
  "map_of (peers st) sender = Some info \<Longrightarrow>
   (map_of event ''echo'' = Some (JBool False) \<longrightarrow>
      snd (onMessage st conns sender (Msg (BroadcastEvent event)))
        = map (\<lambda>c. (c, Event (eventData sender info event))) (filter (\<lambda>c. c \<noteq> sender) conns)
      \<and> sender \<notin> fst ` set (snd (onMessage st conns sender (Msg (BroadcastEvent event)))))
   \<and> (map_of event ''echo'' = Some (JBool True) \<or> map_of event ''echo'' = None \<longrightarrow>
      snd (onMessage st conns sender (Msg (BroadcastEvent event)))
        = map (\<lambda>c. (c, Event (eventData sender info event))) conns)"
  by (auto simp add: onMessage_def broadcast_def event_echo_def Let_def)

theorem broadcast_event_echo_witness:
  "map_of (peers room_AB) ''A'' = Some \<lparr>username = ''alice'', avatarUrl = ''a.png''\<rparr>
   \<and> map_of [(''type'', JStr ''x''), (''echo'', JBool False)] ''echo'' = Some (JBool False)
   \<and> snd (onMessage room_AB [''A'', ''B''] ''A''
        (Msg (BroadcastEvent [(''type'', JStr ''x''), (''echo'', JBool False)])))
      = [(''B'', Event [(''type'', JStr ''x''), (''clientId'', JStr ''A''),
                        (''username'', JStr ''alice'')])]"
  using broadcast_event_echo [of room_AB "''A''" "\<lparr>username = ''alice'', avatarUrl = ''a.png''\<rparr>"
      "[(''type'', JStr ''x''), (''echo'', JBool False)]" "[''A'', ''B'']"]
  by (simp add: room_AB_def eventData_def event_rest_def)



lemma map_of_fold_update:
  "distinct (map fst xs) \<Longrightarrow>
   map_of (fold (\<lambda>(k, v). AList.update k v) xs base) k
     = (case map_of xs k of None \<Rightarrow> map_of base k | Some v \<Rightarrow> Some v)"
proof (induction xs arbitrary: base)
  case Nil
  then show ?case by simp
next
  case (Cons x xs)
  obtain k0 v0 where x: "x = (k0, v0)" by (cases x)
  from Cons.prems x have d: "distinct (map fst xs)" and n: "map_of xs k0 = None"
    by (auto simp: map_of_eq_None_iff)
  show ?case
    using n by (auto simp: x Cons.IH [OF d] update_conv' split: option.splits)
qed

lemma map_of_event_rest:
  "map_of (event_rest event) k
     = (if k = ''echo'' \<or> k = ''type'' then None else map_of event k)"
  unfolding event_rest_def by (induction event) auto

text \<open>
  What the outgoing event data holds at each key, for an event with each key once: the
  fields of the event without \<open>echo\<close>, and the sender's id and username only at the
  keys \<open>clientId\<close> and \<open>username\<close> that the event leaves free.
\<close>

lemma eventData_lookup:
  assumes "distinct (map fst event)"
  shows "map_of (eventData sender info event) k
     = (if k = ''echo'' then None
        else if k = ''type'' then map_of event ''type''
        else (case map_of event k of
                Some v \<Rightarrow> Some v
              | None \<Rightarrow>
                  if k = ''clientId'' then Some (JStr sender)
                  else if k = ''username'' then Some (JStr (username info))
                  else None))"
proof -
  have "distinct (map fst (event_rest event))"
    using assms unfolding event_rest_def by (simp add: distinct_map_filter)
  then show ?thesis
    unfolding eventData_def
    by (simp add: map_of_fold_update map_of_event_rest split: option.splits)
qed

text \<open>
  Claim C1 says that the outgoing event carries the \<open>clientId\<close> and \<open>username\<close> of the
  sending connection even when the event supplies fields of these names. The object literal
  spreads \<open>rest\<close> after \<open>clientId\<close> and \<open>username\<close>, so the fields of the event win: client
  \<open>A\<close>, registered as \<open>alice\<close>, sends an event that names \<open>B\<close> and \<open>bob\<close>, and every
  connection receives it as sent by \<open>B\<close>, \<open>bob\<close>.
\<close>

theorem broadcast_event_sender_fields_win:
  "snd (onMessage room_AB [''A'', ''B''] ''A''
     (Msg (BroadcastEvent [(''type'', JStr ''x''), (''clientId'', JStr ''B''),
                           (''username'', JStr ''bob'')])))
   = [(''A'', Event [(''type'', JStr ''x''), (''clientId'', JStr ''B''), (''username'', JStr ''bob'')]),
      (''B'', Event [(''type'', JStr ''x''), (''clientId'', JStr ''B''), (''username'', JStr ''bob'')])]"
  by (simp add: onMessage_def room_AB_def broadcast_def eventData_def event_rest_def event_echo_def)

section \<open>Replica: results\<close>

text \<open>
  Claim C10. While the socket is null or not in the \<open>OPEN\<close> state, \<open>sendToServer\<close> sends
  nothing; \<open>updateRoomState\<close>, \<open>requestPresenceUpdate\<close> and \<open>send\<close> then change nothing and
  send nothing, while \<open>updatePresence\<close> still merges into the local presence entry of the
  current \<open>clientId\<close>, which is the empty string in a replica that was never initialised.
\<close>

theorem sends_nothing_unless_open:
  "socket st \<noteq> Some OPEN \<Longrightarrow>
     sendToServer st msg = []
   \<and> updateRoomState st rs = (st, [])
   \<and> requestPresenceUpdate st clientId upd = (st, [])
   \<and> send_event st event = (st, [])
   \<and> updatePresence st p =
       (st\<lparr>c_presence := AList.update (c_clientId st)
             (deepMerge (presence_or_empty (c_presence st) (c_clientId st)) p) (c_presence st)\<rparr>, [])
   \<and> c_clientId new_WebsimSocket = ''''
   \<and> updatePresence new_WebsimSocket p = (new_WebsimSocket\<lparr>c_presence := [('''', deepMerge [] p)]\<rparr>, [])"
  by (simp add: sendToServer_def updateRoomState_def requestPresenceUpdate_def send_event_def
      updatePresence_def new_WebsimSocket_def presence_or_empty_def)

theorem sends_nothing_unless_open_witness:
  "socket (new_WebsimSocket\<lparr>socket := Some CLOSED\<rparr>) \<noteq> Some OPEN
   \<and> send_event (new_WebsimSocket\<lparr>socket := Some CLOSED\<rparr>) [(''type'', JStr ''x'')]
       = (new_WebsimSocket\<lparr>socket := Some CLOSED\<rparr>, [])
   \<and> updatePresence (new_WebsimSocket\<lparr>socket := Some CLOSED\<rparr>) [(''x'', JNum 1)]
       = (new_WebsimSocket\<lparr>socket := Some CLOSED, c_presence := [('''', [(''x'', JNum 1)])]\<rparr>, [])"
  using sends_nothing_unless_open [of "new_WebsimSocket\<lparr>socket := Some CLOSED\<rparr>" _ _ _ _
      "[(''type'', JStr ''x'')]" "[(''x'', JNum 1)]"]
  by (simp add: new_WebsimSocket_def presence_or_empty_def deepMerge_own_Cons)




end
